theory Spec2Isabelle
  imports Main "HOL-Library.Multiset"
begin

section \<open>Data model\<close>

text \<open>
  The schedule builder exists in two variants: \<^verbatim>\<open>src/schedule.js\<close> (nine time slots,
  upfront capacity check, credits-driven placement loop) and \<^verbatim>\<open>src/js/schedule.js\<close>
  (five time slots, one placement per subject). Both are classes named
  \<^verbatim>\<open>ScheduleManager\<close> with the same fields; definitions taken from the second file
  carry the suffix \<open>_js\<close>.
\<close>

text \<open>A subject as \<^verbatim>\<open>proceedToSchedule\<close> pushes it: \<^verbatim>\<open>{name, professor, credits, id}\<close>.
  The field \<^verbatim>\<open>id\<close> is called \<open>id_no\<close> here, since \<open>id\<close> is the identity function of HOL.\<close>

record subject =
  name :: string
  professor :: string
  credits :: int
  id_no :: nat

text \<open>A candidate position \<^verbatim>\<open>{ day, time }\<close>.\<close>

record position =
  day :: nat
  time :: nat

text \<open>The schedule matrix \<^verbatim>\<open>schedule[time][day]\<close>; \<open>None\<close> is JavaScript's \<^verbatim>\<open>null\<close>.\<close>

type_synonym grid = "subject option list list"

text \<open>The fields of \<^verbatim>\<open>ScheduleManager\<close> that \<^verbatim>\<open>createScheduleMatrix\<close> reads or writes.\<close>

record manager =
  timeSlots :: "string list"
  weekDays :: "string list"
  subjects :: "subject list"
  currentScheduleData :: "grid option"

text \<open>
  Whatever \<^verbatim>\<open>createScheduleMatrix\<close> can throw. \<open>InsufficientSlots required available\<close> is the
  upfront error of \<^verbatim>\<open>src/schedule.js\<close> (its message carries both numbers),
  \<open>NoSlotsForSubject n\<close> its per-subject error (the message carries the subject's name),
  \<open>NotEnoughPositions\<close> the only error of \<^verbatim>\<open>src/js/schedule.js\<close>. \<open>IndexOutOfRange\<close> stands
  for every access to \<^verbatim>\<open>schedule[t][d]\<close> outside the allocated matrix: JavaScript throws a
  TypeError when \<^verbatim>\<open>schedule[t]\<close> is undefined, and silently grows the row when only \<^verbatim>\<open>d\<close> is
  past the end; the model reports both, so that index safety is a statement about results.
\<close>

datatype error =
  InsufficientSlots nat nat
  | NoSlotsForSubject string
  | NotEnoughPositions
  | IndexOutOfRange

text \<open>The constructors. The accented letter of the third weekday is written as its two
  UTF-8 bytes.\<close>

definition new_ScheduleManager :: manager where
  "new_ScheduleManager =
     \<lparr> timeSlots = [''07:00-09:00'', ''08:00-10:00'', ''09:00-11:00'', ''10:00-12:00'',
                    ''11:00-13:00'', ''13:00-15:00'', ''14:00-16:00'', ''15:00-17:00'',
                    ''16:00-18:00''],
       weekDays = [''Lunes'', ''Martes'', ''Mi'' @ [CHR 0xC3, CHR 0xA9] @ ''rcoles'', ''Jueves'',
                   ''Viernes''],
       subjects = [],
       currentScheduleData = None \<rparr>"

definition new_ScheduleManager_js :: manager where
  "new_ScheduleManager_js =
     \<lparr> timeSlots = [''07:00-09:00'', ''09:00-11:00'', ''11:00-13:00'', ''13:00-15:00'',
                    ''15:00-17:00''],
       weekDays = [''Lunes'', ''Martes'', ''Mi'' @ [CHR 0xC3, CHR 0xA9] @ ''rcoles'', ''Jueves'',
                   ''Viernes''],
       subjects = [],
       currentScheduleData = None \<rparr>"

section \<open>The parts both variants share\<close>

text \<open>
  \<^verbatim>\<open>for (i = 0; i < timeSlots.length; i++) schedule[i] = new Array(weekDays.length).fill(null)\<close>
\<close>

definition emptySchedule :: "manager \<Rightarrow> grid" where
  "emptySchedule this =
     map (\<lambda>i. replicate (length (weekDays this)) None) [0..<length (timeSlots this)]"

text \<open>
  The two nested loops that push \<^verbatim>\<open>{ day, time }\<close>: days outermost, and
  \<^verbatim>\<open>time = startIndex; time < timeSlots.length - 1\<close>. The start index is what
  \<^verbatim>\<open>findIndex\<close> returned after the caller has rejected \<^verbatim>\<open>-1\<close>, hence a natural number.
  On naturals \<open>length (timeSlots this) - 1\<close> is \<open>0\<close> for an empty slot list where JavaScript
  has \<open>-1\<close>; the loop body runs in neither case.
\<close>

definition availableSlots :: "manager \<Rightarrow> nat \<Rightarrow> position list" where
  "availableSlots this startIndex =
     concat (map (\<lambda>d. map (\<lambda>t. \<lparr> day = d, time = t \<rparr>)
                           [startIndex..<length (timeSlots this) - 1])
                 [0..<length (weekDays this)])"

text \<open>The same loops in \<^verbatim>\<open>src/js/schedule.js\<close>, where the array is called
  \<^verbatim>\<open>availablePositions\<close>.\<close>

definition availablePositions_js :: "manager \<Rightarrow> nat \<Rightarrow> position list" where
  "availablePositions_js this startIndex =
     concat (map (\<lambda>d. map (\<lambda>t. \<lparr> day = d, time = t \<rparr>)
                           [startIndex..<length (timeSlots this) - 1])
                 [0..<length (weekDays this)])"

text \<open>
  \<^verbatim>\<open>shuffleArray\<close>: \<^verbatim>\<open>for (i = array.length - 1; i > 0; i--)\<close> with
  \<^verbatim>\<open>j = Math.floor(Math.random() * (i + 1))\<close> and the swap of \<^verbatim>\<open>array[i]\<close>, \<^verbatim>\<open>array[j]\<close>.
  \<^verbatim>\<open>Math.random\<close> is the only source of non-determinism; it is an argument \<open>rnd\<close>, the draw
  made at loop index \<open>i\<close> being \<open>rnd i\<close>, reduced into \<open>0..i\<close> as the floor of the product is.
  The destructuring swap reads both elements before it writes either.
\<close>

fun shuffleLoop :: "(nat \<Rightarrow> nat) \<Rightarrow> nat \<Rightarrow> 'a list \<Rightarrow> 'a list" where
  "shuffleLoop rnd 0 array = array"
| "shuffleLoop rnd (Suc k) array =
     (let i = Suc k; j = rnd i mod (i + 1)
      in shuffleLoop rnd k (array[i := array ! j, j := array ! i]))"

definition shuffleArray :: "(nat \<Rightarrow> nat) \<Rightarrow> 'a list \<Rightarrow> 'a list" where
  "shuffleArray rnd array = shuffleLoop rnd (length array - 1) array"

text \<open>
  \<^verbatim>\<open>array.findIndex(pred)\<close> (\<open>None\<close> for \<^verbatim>\<open>-1\<close>) and \<^verbatim>\<open>array.splice(index, 1)\<close>.
\<close>

fun findIndex :: "('a \<Rightarrow> bool) \<Rightarrow> 'a list \<Rightarrow> nat option" where
  "findIndex pred [] = None"
| "findIndex pred (x # xs) =
     (if pred x then Some 0 else map_option Suc (findIndex pred xs))"

definition splice1 :: "nat \<Rightarrow> 'a list \<Rightarrow> 'a list" where
  "splice1 index array = take index array @ drop (Suc index) array"

text \<open>
  \<^verbatim>\<open>nextSlotIndex = available.findIndex(slot => slot.day === day && slot.time === time + 1);\<close>
  \<^verbatim>\<open>if (nextSlotIndex !== -1) available.splice(nextSlotIndex, 1)\<close>; the second argument is the
  \<^verbatim>\<open>time + 1\<close> of the source.
\<close>

definition removeNextSlot :: "nat \<Rightarrow> nat \<Rightarrow> position list \<Rightarrow> position list" where
  "removeNextSlot d t available =
     (case findIndex (\<lambda>slot. day slot = d \<and> time slot = t) available of
        None \<Rightarrow> available
      | Some nextSlotIndex \<Rightarrow> splice1 nextSlotIndex available)"

text \<open>Reading and writing \<^verbatim>\<open>schedule[t][d]\<close>, with the range check made explicit.\<close>

definition readCell :: "grid \<Rightarrow> nat \<Rightarrow> nat \<Rightarrow> error + subject option" where
  "readCell schedule t d =
     (if t < length schedule \<and> d < length (schedule ! t) then Inr (schedule ! t ! d)
      else Inl IndexOutOfRange)"

definition writeCell :: "grid \<Rightarrow> nat \<Rightarrow> nat \<Rightarrow> subject \<Rightarrow> error + grid" where
  "writeCell schedule t d s =
     (if t < length schedule \<and> d < length (schedule ! t)
      then Inr (schedule[t := (schedule ! t)[d := Some s]])
      else Inl IndexOutOfRange)"

section \<open>The allocator of src/schedule.js\<close>

text \<open>\<^verbatim>\<open>Math.max(1, Math.floor(subject.credits / 2))\<close>; \<open>div\<close> on integers rounds down.\<close>

definition slotsNeeded :: "subject \<Rightarrow> nat" where
  "slotsNeeded s = nat (max 1 (credits s div 2))"

text \<open>The two ways of placing a subject at a position: the cell and the one below it on the
  same day, written in this order, or the cell alone.\<close>

definition placeBlock :: "grid \<Rightarrow> position \<Rightarrow> subject \<Rightarrow> error + grid" where
  "placeBlock schedule p s =
     (case writeCell schedule (time p) (day p) s of
        Inl e \<Rightarrow> Inl e
      | Inr schedule1 \<Rightarrow> writeCell schedule1 (time p + 1) (day p) s)"

definition placeSingle :: "grid \<Rightarrow> position \<Rightarrow> subject \<Rightarrow> error + grid" where
  "placeSingle schedule p s = writeCell schedule (time p) (day p) s"

text \<open>
  The body of the inner loop for the position \<open>p\<close> that \<^verbatim>\<open>shift()\<close> took from the head of
  the pool, \<open>available\<close> being the rest: the new matrix, the new pool and the increment of
  \<^verbatim>\<open>slotsAssigned\<close>. The test of the first branch is
  \<^verbatim>\<open>position.time + 1 < timeSlots.length && schedule[position.time + 1][position.day] === null\<close>,
  so the cell below is read only when the bound holds.
\<close>

definition placeOne ::
  "manager \<Rightarrow> subject \<Rightarrow> grid \<Rightarrow> position \<Rightarrow> position list \<Rightarrow> error + grid \<times> position list \<times> nat"
where
  "placeOne this s schedule p available =
     (if time p + 1 < length (timeSlots this) then
        (case readCell schedule (time p + 1) (day p) of
           Inl e \<Rightarrow> Inl e
         | Inr None \<Rightarrow>
             (case placeBlock schedule p s of
                Inl e \<Rightarrow> Inl e
              | Inr schedule' \<Rightarrow>
                  Inr (schedule', removeNextSlot (day p) (time p + 1) available, 2))
         | Inr (Some other) \<Rightarrow>
             (case placeSingle schedule p s of
                Inl e \<Rightarrow> Inl e
              | Inr schedule' \<Rightarrow> Inr (schedule', available, 1)))
      else
        (case placeSingle schedule p s of
           Inl e \<Rightarrow> Inl e
         | Inr schedule' \<Rightarrow> Inr (schedule', available, 1)))"

text \<open>
  The inner loop \<^verbatim>\<open>for (i = 0; i < slotsNeeded && availableSlots.length > 0; i++)\<close>; the
  numeric argument is the number of iterations still allowed, \<open>slotsNeeded - i\<close>. The state
  is the matrix, the pool and the counter \<^verbatim>\<open>slotsAssigned\<close>.
\<close>

fun placeLoop ::
  "manager \<Rightarrow> subject \<Rightarrow> nat \<Rightarrow> grid \<Rightarrow> position list \<Rightarrow> nat \<Rightarrow> error + grid \<times> position list \<times> nat"
where
  "placeLoop this s 0 schedule available slotsAssigned =
     Inr (schedule, available, slotsAssigned)"
| "placeLoop this s (Suc n) schedule [] slotsAssigned =
     Inr (schedule, [], slotsAssigned)"
| "placeLoop this s (Suc n) schedule (p # available) slotsAssigned =
     (case placeOne this s schedule p available of
        Inl e \<Rightarrow> Inl e
      | Inr (schedule', available', assigned) \<Rightarrow>
          placeLoop this s n schedule' available' (slotsAssigned + assigned))"

text \<open>
  The callback of \<^verbatim>\<open>this.subjects.forEach\<close>, run over the subjects in order: it throws when
  the pool is empty on entry, and otherwise runs the inner loop \<open>slotsNeeded\<close> times at most.
  The result is the matrix and the pool that is left.
\<close>

fun scheduleSubjects ::
  "manager \<Rightarrow> subject list \<Rightarrow> grid \<Rightarrow> position list \<Rightarrow> error + grid \<times> position list"
where
  "scheduleSubjects this [] schedule available = Inr (schedule, available)"
| "scheduleSubjects this (s # rest) schedule available =
     (if available = [] then Inl (NoSlotsForSubject (name s))
      else
        (case placeLoop this s (slotsNeeded s) schedule available 0 of
           Inl e \<Rightarrow> Inl e
         | Inr (schedule', available', slotsAssigned) \<Rightarrow>
             scheduleSubjects this rest schedule' available'))"

text \<open>
  \<^verbatim>\<open>createScheduleMatrix(startIndex)\<close>. The result is what the call returns or throws,
  together with the manager after the call: \<^verbatim>\<open>this.currentScheduleData = schedule\<close> is
  reached only when nothing was thrown.
\<close>

definition createScheduleMatrix ::
  "(nat \<Rightarrow> nat) \<Rightarrow> manager \<Rightarrow> nat \<Rightarrow> (error + grid) \<times> manager"
where
  "createScheduleMatrix rnd this startIndex =
     (let schedule = emptySchedule this;
          available = availableSlots this startIndex
      in if length available < length (subjects this) * 2
         then (Inl (InsufficientSlots (length (subjects this) * 2) (length available)), this)
         else
           (case scheduleSubjects this (subjects this) schedule (shuffleArray rnd available) of
              Inl e \<Rightarrow> (Inl e, this)
            | Inr (schedule', available') \<Rightarrow>
                (Inr schedule', this\<lparr> currentScheduleData := Some schedule' \<rparr>)))"

section \<open>The allocator of src/js/schedule.js\<close>

text \<open>
  The callback of \<^verbatim>\<open>forEach\<close> in the five-slot variant: it throws when fewer than two
  positions are left, takes one position with \<^verbatim>\<open>pop()\<close> (the last element), and writes the
  cell and the one below it whenever \<^verbatim>\<open>position.time + 1 < timeSlots.length\<close>; the cell
  below is not read first. \<^verbatim>\<open>subject.credits\<close> is never read.
\<close>

fun scheduleSubjects_js ::
  "manager \<Rightarrow> subject list \<Rightarrow> grid \<Rightarrow> position list \<Rightarrow> error + grid \<times> position list"
where
  "scheduleSubjects_js this [] schedule available = Inr (schedule, available)"
| "scheduleSubjects_js this (s # rest) schedule available =
     (if length available < 2 then Inl NotEnoughPositions
      else
        (let p = last available; available1 = butlast available
         in if time p + 1 < length (timeSlots this) then
              (case placeBlock schedule p s of
                 Inl e \<Rightarrow> Inl e
               | Inr schedule' \<Rightarrow>
                   scheduleSubjects_js this rest schedule'
                     (removeNextSlot (day p) (time p + 1) available1))
            else
              (case placeSingle schedule p s of
                 Inl e \<Rightarrow> Inl e
               | Inr schedule' \<Rightarrow> scheduleSubjects_js this rest schedule' available1)))"

definition createScheduleMatrix_js ::
  "(nat \<Rightarrow> nat) \<Rightarrow> manager \<Rightarrow> nat \<Rightarrow> (error + grid) \<times> manager"
where
  "createScheduleMatrix_js rnd this startIndex =
     (let schedule = emptySchedule this;
          available = availablePositions_js this startIndex
      in case scheduleSubjects_js this (subjects this) schedule (shuffleArray rnd available) of
           Inl e \<Rightarrow> (Inl e, this)
         | Inr (schedule', available') \<Rightarrow>
             (Inr schedule', this\<lparr> currentScheduleData := Some schedule' \<rparr>))"

section \<open>Observations on a matrix\<close>

text \<open>The cells \<open>(time, day)\<close> of a matrix that hold the subject \<open>s\<close>, in row order.\<close>

definition cellsOf :: "grid \<Rightarrow> subject \<Rightarrow> (nat \<times> nat) list" where
  "cellsOf schedule s =
     concat (map (\<lambda>t. map (\<lambda>d. (t, d))
                           (filter (\<lambda>d. schedule ! t ! d = Some s) [0..<length (schedule ! t)]))
                 [0..<length schedule])"

section \<open>Invariants of the placement loop\<close>

text \<open>A matrix has the dimensions \<^verbatim>\<open>timeSlots.length\<close> by \<^verbatim>\<open>weekDays.length\<close>.\<close>

definition wellShaped :: "manager \<Rightarrow> grid \<Rightarrow> bool" where
  "wellShaped this schedule \<longleftrightarrow>
     length schedule = length (timeSlots this) \<and>
     (\<forall>t < length schedule. length (schedule ! t) = length (weekDays this))"

text \<open>
  What holds of the matrix and the pool between two iterations in \<^verbatim>\<open>src/schedule.js\<close>: the
  pool has no duplicates, each of its positions is a cell of the matrix that is not the last
  of its day, lies at or after the start index and is still \<^verbatim>\<open>null\<close>, and no cell before the
  start index is occupied.
\<close>

definition poolInv :: "manager \<Rightarrow> nat \<Rightarrow> grid \<Rightarrow> position list \<Rightarrow> bool" where
  "poolInv this startIndex schedule available \<longleftrightarrow>
     wellShaped this schedule \<and> distinct available \<and>
     (\<forall>p \<in> set available. day p < length (weekDays this) \<and> time p + 1 < length (timeSlots this) \<and>
        startIndex \<le> time p \<and> schedule ! time p ! day p = None) \<and>
     (\<forall>t d. t < startIndex \<and> t < length (timeSlots this) \<and> d < length (weekDays this) \<longrightarrow>
        schedule ! t ! d = None)"

section \<open>Definitions used to state the properties\<close>

text \<open>
  The required capacity in the words of the specification: the sum over the subjects of
  \<open>max(1, floor(credits / 2))\<close>. The source never computes this sum; it compares the number of
  candidates with \<^verbatim>\<open>subjects.length * 2\<close>.
\<close>

definition spec_requiredCapacity :: "subject list \<Rightarrow> nat" where
  "spec_requiredCapacity subs = sum_list (map slotsNeeded subs)"

text \<open>Forgetting the credits of a subject, of a matrix and of a result.\<close>

definition eraseCredits :: "subject \<Rightarrow> subject" where
  "eraseCredits s = s\<lparr> credits := 0 \<rparr>"

definition mapGrid :: "(subject \<Rightarrow> subject) \<Rightarrow> grid \<Rightarrow> grid" where
  "mapGrid h schedule = map (map (map_option h)) schedule"

text \<open>Concrete inputs: subjects as the intake builds them, and the draws of the shuffle.
  With the draw \<open>id\<close> every swap exchanges an element with itself, so the pool keeps the order
  in which it was built.\<close>

definition mkSubject :: "string \<Rightarrow> int \<Rightarrow> nat \<Rightarrow> subject" where
  "mkSubject n c i = \<lparr> name = n, professor = ''Prof'', credits = c, id_no = i \<rparr>"

definition withSubjects :: "manager \<Rightarrow> subject list \<Rightarrow> manager" where
  "withSubjects this subs = this\<lparr> subjects := subs \<rparr>"

text \<open>Draws that bring \<open>(day 0, time 1)\<close> to the end of a pool of twenty positions and
  \<open>(day 0, time 0)\<close> just before it.\<close>

definition drawsLate :: "nat \<Rightarrow> nat" where
  "drawsLate i = (if i = 19 then 1 else if i = 18 then 0 else i)"

section \<open>The shuffle permutes, the candidates are the expected pairs\<close>

lemma shuffleLoop_mset: "k < length xs \<Longrightarrow> mset (shuffleLoop rnd k xs) = mset xs"
proof (induction k arbitrary: xs)
  case 0
  then show ?case by simp
next
  case (Suc k)
  let ?j = "rnd (Suc k) mod (Suc k + 1)"
  have "?j < Suc k + 1" by (rule mod_less_divisor) simp
  then have j: "?j < length xs" using Suc.prems by linarith
  have "mset (xs[Suc k := xs ! ?j, ?j := xs ! Suc k]) = mset xs"
    using mset_swap[OF j Suc.prems] .
  moreover have "k < length (xs[Suc k := xs ! ?j, ?j := xs ! Suc k])" using Suc.prems by simp
  ultimately show ?case using Suc.IH by (simp add: Let_def)
qed

lemma shuffleArray_mset: "mset (shuffleArray rnd xs) = mset xs"
proof (cases xs)
  case Nil
  then show ?thesis by (simp add: shuffleArray_def)
next
  case (Cons a list)
  then show ?thesis by (simp add: shuffleArray_def shuffleLoop_mset)
qed

lemma shuffleArray_set: "set (shuffleArray rnd xs) = set xs"
  using shuffleArray_mset by (metis set_mset_mset)

lemma shuffleArray_distinct: "distinct (shuffleArray rnd xs) = distinct xs"
  using shuffleArray_mset by (metis mset_eq_imp_distinct_iff)

lemma shuffleArray_length: "length (shuffleArray rnd xs) = length xs"
  using shuffleArray_mset by (metis size_mset)

lemma availableSlots_set:
  "set (availableSlots this startIndex) =
     {p. day p < length (weekDays this) \<and> startIndex \<le> time p \<and> time p < length (timeSlots this) - 1}"
  (is "?L = ?R")
proof -
  have L: "?L = (\<Union>d\<in>{0..<length (weekDays this)}.
                  (\<lambda>t. \<lparr> day = d, time = t \<rparr>) ` {startIndex..<length (timeSlots this) - 1})"
    by (simp add: availableSlots_def)
  show ?thesis
  proof (rule set_eqI)
    fix p :: position
    have p: "p = \<lparr> day = day p, time = time p \<rparr>" by simp
    show "p \<in> ?L \<longleftrightarrow> p \<in> ?R"
    proof
      assume "p \<in> ?L"
      then obtain d t where "d < length (weekDays this)" "startIndex \<le> t"
          "t < length (timeSlots this) - 1" "p = \<lparr> day = d, time = t \<rparr>"
        unfolding L by force
      then show "p \<in> ?R" by simp
    next
      assume "p \<in> ?R"
      then have d: "day p \<in> {0..<length (weekDays this)}"
        and t: "time p \<in> {startIndex..<length (timeSlots this) - 1}" by simp_all
      from t have "p \<in> (\<lambda>t. \<lparr> day = day p, time = t \<rparr>) ` {startIndex..<length (timeSlots this) - 1}"
        using p by (rule_tac x="time p" in image_eqI)
      with d show "p \<in> ?L" unfolding L by (rule_tac a="day p" in UN_I)
    qed
  qed
qed

lemma availableSlots_distinct: "distinct (availableSlots this startIndex)"
proof -
  have "distinct (concat (map (\<lambda>d. map (\<lambda>t. \<lparr> day = d, time = t \<rparr>) ts) [0..<n]))"
    if "distinct ts" for n and ts :: "nat list"
  proof (induction n)
    case 0
    show ?case by simp
  next
    case (Suc n)
    have "distinct (map (\<lambda>t. \<lparr> day = n, time = t \<rparr>) ts)"
      using that by (simp add: distinct_map inj_on_def)
    with Suc show ?case by auto
  qed
  then show ?thesis unfolding availableSlots_def by simp
qed

lemma availableSlots_length:
  "length (availableSlots this startIndex) =
     length (weekDays this) * (length (timeSlots this) - 1 - startIndex)"
  by (simp add: availableSlots_def length_concat comp_def sum_list_triv)

lemma findIndex_None: "findIndex P xs = None \<longleftrightarrow> (\<forall>x \<in> set xs. \<not> P x)"
  by (induction xs) auto

lemma removeNextSlot_remove1:
  "removeNextSlot d t available = remove1 \<lparr> day = d, time = t \<rparr> available"
proof (induction available)
  case Nil
  then show ?case by (simp add: removeNextSlot_def)
next
  case (Cons a available)
  show ?case
  proof (cases "day a = d \<and> time a = t")
    case True
    then have "a = \<lparr> day = d, time = t \<rparr>" by simp
    then show ?thesis by (simp add: removeNextSlot_def splice1_def)
  next
    case False
    then have ne: "a \<noteq> \<lparr> day = d, time = t \<rparr>" by auto
    show ?thesis using Cons False ne
      by (auto simp: removeNextSlot_def splice1_def split: option.splits)
  qed
qed

section \<open>The placement loop of src/schedule.js keeps its invariant\<close>

lemma writeCell_ok:
  assumes "wellShaped this g" "t < length (timeSlots this)" "d < length (weekDays this)"
  shows "\<exists>g'. writeCell g t d s = Inr g' \<and> wellShaped this g' \<and>
           (\<forall>t' d'. g' ! t' ! d' = (if t' = t \<and> d' = d then Some s else g ! t' ! d'))"
proof -
  let ?g' = "g[t := (g ! t)[d := Some s]]"
  have tl: "t < length g" and dl: "d < length (g ! t)"
    using assms by (simp_all add: wellShaped_def)
  have w: "writeCell g t d s = Inr ?g'" using tl dl by (simp add: writeCell_def)
  have ws: "wellShaped this ?g'"
    using assms(1) tl by (auto simp: wellShaped_def nth_list_update)
  have "?g' ! t' ! d' = (if t' = t \<and> d' = d then Some s else g ! t' ! d')" for t' d'
    using tl dl by (cases "t' = t") (simp_all add: nth_list_update)
  with w ws show ?thesis by blast
qed

lemma readCell_ok:
  assumes "wellShaped this g" "t < length (timeSlots this)" "d < length (weekDays this)"
  shows "readCell g t d = Inr (g ! t ! d)"
  using assms by (simp add: readCell_def wellShaped_def)

lemma placeSingle_ok:
  assumes "wellShaped this g" "time p < length (timeSlots this)" "day p < length (weekDays this)"
  shows "\<exists>g'. placeSingle g p s = Inr g' \<and> wellShaped this g' \<and>
           (\<forall>t' d'. g' ! t' ! d' = (if t' = time p \<and> d' = day p then Some s else g ! t' ! d'))"
  unfolding placeSingle_def using writeCell_ok[OF assms] .

lemma placeBlock_ok:
  assumes "wellShaped this g" "time p + 1 < length (timeSlots this)" "day p < length (weekDays this)"
  shows "\<exists>g'. placeBlock g p s = Inr g' \<and> wellShaped this g' \<and>
           (\<forall>t' d'. g' ! t' ! d' =
              (if (t' = time p \<or> t' = time p + 1) \<and> d' = day p then Some s else g ! t' ! d'))"
proof -
  have t: "time p < length (timeSlots this)" using assms(2) by simp
  obtain g1 where g1: "writeCell g (time p) (day p) s = Inr g1" "wellShaped this g1"
      "\<And>t' d'. g1 ! t' ! d' = (if t' = time p \<and> d' = day p then Some s else g ! t' ! d')"
    using writeCell_ok[OF assms(1) t assms(3)] by blast
  obtain g2 where g2: "writeCell g1 (time p + 1) (day p) s = Inr g2" "wellShaped this g2"
      "\<And>t' d'. g2 ! t' ! d' = (if t' = time p + 1 \<and> d' = day p then Some s else g1 ! t' ! d')"
    using writeCell_ok[OF g1(2) assms(2) assms(3)] by blast
  have "placeBlock g p s = Inr g2" unfolding placeBlock_def using g1(1) g2(1) by simp
  moreover have "g2 ! t' ! d' =
              (if (t' = time p \<or> t' = time p + 1) \<and> d' = day p then Some s else g ! t' ! d')" for t' d'
    by (simp add: g1(3) g2(3))
  ultimately show ?thesis using g2(2) by blast
qed

text \<open>One iteration of the inner loop, from a state that satisfies the invariant.\<close>

lemma placeOne_ok:
  assumes inv: "poolInv this si g (p # available)"
  shows "\<exists>g' available' k. placeOne this s g p available = Inr (g', available', k) \<and>
           poolInv this si g' available' \<and>
           (\<forall>t d. g ! t ! d \<noteq> None \<longrightarrow> g' ! t ! d = g ! t ! d) \<and>
           (\<forall>t d. g' ! t ! d \<noteq> g ! t ! d \<longrightarrow> g' ! t ! d = Some s) \<and>
           g' ! time p ! day p = Some s \<and>
           set available' \<subseteq> set available \<and>
           length available \<le> length available' + 1 \<and>
           (k = 1 \<or> k = 2)"
proof -
  have ws: "wellShaped this g" and dist: "distinct (p # available)"
    and pd: "day p < length (weekDays this)" and pt: "time p + 1 < length (timeSlots this)"
    and psi: "si \<le> time p" and pnull: "g ! time p ! day p = None"
    and rest: "\<And>q. q \<in> set available \<Longrightarrow> day q < length (weekDays this) \<and>
           time q + 1 < length (timeSlots this) \<and> si \<le> time q \<and> g ! time q ! day q = None"
    and before: "\<And>t d. t < si \<Longrightarrow> t < length (timeSlots this) \<Longrightarrow> d < length (weekDays this)
           \<Longrightarrow> g ! t ! d = None"
    using inv by (auto simp: poolInv_def)
  have pt0: "time p < length (timeSlots this)" using pt by simp
  have pnot: "p \<notin> set available" and dav: "distinct available" using dist by simp_all
  have rd: "readCell g (time p + 1) (day p) = Inr (g ! (time p + 1) ! day p)"
    using readCell_ok[OF ws pt pd] .
  show ?thesis
  proof (cases "g ! (time p + 1) ! day p")
    case None
    obtain g' where g': "placeBlock g p s = Inr g'" "wellShaped this g'"
      "\<And>t' d'. g' ! t' ! d' =
              (if (t' = time p \<or> t' = time p + 1) \<and> d' = day p then Some s else g ! t' ! d')"
      using placeBlock_ok[OF ws pt pd] by blast
    let ?av = "remove1 \<lparr> day = day p, time = time p + 1 \<rparr> available"
    have one: "placeOne this s g p available = Inr (g', ?av, 2)"
      using pt rd None g'(1) by (simp add: placeOne_def removeNextSlot_remove1)
    have sub: "set ?av \<subseteq> set available" by (rule set_remove1_subset)
    have nin: "\<lparr> day = day p, time = time p + 1 \<rparr> \<notin> set ?av" using dav by simp
    have qcell: "g' ! time q ! day q = None" if "q \<in> set ?av" for q
    proof -
      have qa: "q \<in> set available" using that sub by blast
      have "q \<noteq> p" using qa pnot by blast
      moreover have "q \<noteq> \<lparr> day = day p, time = time p + 1 \<rparr>" using that nin by blast
      ultimately have "\<not> ((time q = time p \<or> time q = time p + 1) \<and> day q = day p)"
        by (cases q, cases p) auto
      then show ?thesis using g'(3) rest[OF qa] by simp
    qed
    have inv': "poolInv this si g' ?av"
      unfolding poolInv_def
    proof (intro conjI ballI allI impI)
      show "wellShaped this g'" by (rule g'(2))
      show "distinct ?av" using dav by simp
    next
      fix q assume q: "q \<in> set ?av"
      then have qa: "q \<in> set available" using sub by blast
      show "day q < length (weekDays this)" "time q + 1 < length (timeSlots this)" "si \<le> time q"
        using rest[OF qa] by simp_all
      show "g' ! time q ! day q = None" by (rule qcell[OF q])
    next
      fix t d assume "t < si \<and> t < length (timeSlots this) \<and> d < length (weekDays this)"
      then show "g' ! t ! d = None" using before psi g'(3) by simp
    qed
    have mono: "\<forall>t d. g ! t ! d \<noteq> None \<longrightarrow> g' ! t ! d = g ! t ! d"
      using g'(3) pnull None by auto
    have chg: "\<forall>t d. g' ! t ! d \<noteq> g ! t ! d \<longrightarrow> g' ! t ! d = Some s"
      using g'(3) by auto
    have here: "g' ! time p ! day p = Some s" using g'(3) by simp
    have len: "length available \<le> length ?av + 1"
      by (simp add: length_remove1) arith
    show ?thesis using one inv' mono chg here sub len by blast
  next
    case (Some other)
    obtain g' where g': "placeSingle g p s = Inr g'" "wellShaped this g'"
      "\<And>t' d'. g' ! t' ! d' = (if t' = time p \<and> d' = day p then Some s else g ! t' ! d')"
      using placeSingle_ok[OF ws pt0 pd] by blast
    have one: "placeOne this s g p available = Inr (g', available, 1)"
      using pt rd Some g'(1) by (simp add: placeOne_def)
    have qcell: "g' ! time q ! day q = None" if "q \<in> set available" for q
    proof -
      have "q \<noteq> p" using that pnot by blast
      then have "\<not> (time q = time p \<and> day q = day p)" by (cases q, cases p) auto
      then show ?thesis using g'(3) rest[OF that] by simp
    qed
    have inv': "poolInv this si g' available"
      unfolding poolInv_def
    proof (intro conjI ballI allI impI)
      show "wellShaped this g'" by (rule g'(2))
      show "distinct available" by (rule dav)
    next
      fix q assume q: "q \<in> set available"
      show "day q < length (weekDays this)" "time q + 1 < length (timeSlots this)" "si \<le> time q"
        using rest[OF q] by simp_all
      show "g' ! time q ! day q = None" by (rule qcell[OF q])
    next
      fix t d assume "t < si \<and> t < length (timeSlots this) \<and> d < length (weekDays this)"
      then show "g' ! t ! d = None" using before psi g'(3) by simp
    qed
    have mono: "\<forall>t d. g ! t ! d \<noteq> None \<longrightarrow> g' ! t ! d = g ! t ! d"
      using g'(3) pnull by auto
    have chg: "\<forall>t d. g' ! t ! d \<noteq> g ! t ! d \<longrightarrow> g' ! t ! d = Some s"
      using g'(3) by auto
    have here: "g' ! time p ! day p = Some s" using g'(3) by simp
    show ?thesis using one inv' mono chg here by simp
  qed
qed

lemma placeLoop_ok:
  assumes "poolInv this si g available"
  shows "\<exists>g' available' k'. placeLoop this s n g available k = Inr (g', available', k') \<and>
           poolInv this si g' available' \<and>
           (\<forall>t d. g ! t ! d \<noteq> None \<longrightarrow> g' ! t ! d = g ! t ! d) \<and>
           (\<forall>t d. g' ! t ! d \<noteq> g ! t ! d \<longrightarrow> g' ! t ! d = Some s) \<and>
           (0 < n \<and> available \<noteq> [] \<longrightarrow>
              g' ! time (hd available) ! day (hd available) = Some s) \<and>
           length available \<le> length available' + 2 * n"
  using assms
proof (induction n arbitrary: g available k)
  case 0
  then show ?case by simp
next
  case (Suc n)
  show ?case
  proof (cases available)
    case Nil
    then show ?thesis using Suc.prems by simp
  next
    case (Cons p rest)
    have inv: "poolInv this si g (p # rest)" using Suc.prems Cons by simp
    obtain g1 av1 inc where one: "placeOne this s g p rest = Inr (g1, av1, inc)"
      and inv1: "poolInv this si g1 av1"
      and mono1: "\<And>t d. g ! t ! d \<noteq> None \<Longrightarrow> g1 ! t ! d = g ! t ! d"
      and chg1: "\<And>t d. g1 ! t ! d \<noteq> g ! t ! d \<Longrightarrow> g1 ! t ! d = Some s"
      and here1: "g1 ! time p ! day p = Some s"
      and len1: "length rest \<le> length av1 + 1"
      using placeOne_ok[OF inv, of s] by blast
    obtain g' av' k' where loop: "placeLoop this s n g1 av1 (k + inc) = Inr (g', av', k')"
      and inv': "poolInv this si g' av'"
      and mono': "\<And>t d. g1 ! t ! d \<noteq> None \<Longrightarrow> g' ! t ! d = g1 ! t ! d"
      and chg': "\<And>t d. g' ! t ! d \<noteq> g1 ! t ! d \<Longrightarrow> g' ! t ! d = Some s"
      and len': "length av1 \<le> length av' + 2 * n"
      using Suc.IH[OF inv1, of "k + inc"] by blast
    have res: "placeLoop this s (Suc n) g available k = Inr (g', av', k')"
      using Cons one loop by simp
    have mono: "\<forall>t d. g ! t ! d \<noteq> None \<longrightarrow> g' ! t ! d = g ! t ! d"
      using mono1 mono' by metis
    have chg: "\<forall>t d. g' ! t ! d \<noteq> g ! t ! d \<longrightarrow> g' ! t ! d = Some s"
      using chg1 chg' by metis
    have here: "g' ! time p ! day p = Some s" using here1 mono' by simp
    have len: "length available \<le> length av' + 2 * Suc n" using Cons len1 len' by simp
    show ?thesis using res inv' mono chg here len Cons by simp
  qed
qed

lemma slotsNeeded_pos: "0 < slotsNeeded s"
  by (simp add: slotsNeeded_def)

text \<open>The whole \<^verbatim>\<open>forEach\<close>: it ends in the per-subject error or in a matrix that still
  satisfies the invariant, in which no occupied cell has changed and every subject holds a cell.\<close>

lemma scheduleSubjects_ok:
  assumes "poolInv this si g available"
  shows "(\<exists>s \<in> set subs. scheduleSubjects this subs g available = Inl (NoSlotsForSubject (name s))) \<or>
         (\<exists>g' available'. scheduleSubjects this subs g available = Inr (g', available') \<and>
            poolInv this si g' available' \<and>
            (\<forall>t d. g ! t ! d \<noteq> None \<longrightarrow> g' ! t ! d = g ! t ! d) \<and>
            (\<forall>s \<in> set subs. \<exists>t < length (timeSlots this). \<exists>d < length (weekDays this).
                g' ! t ! d = Some s))"
  using assms
proof (induction subs arbitrary: g available)
  case Nil
  then show ?case by simp
next
  case (Cons s subs)
  show ?case
  proof (cases available)
    case Nil
    then show ?thesis by simp
  next
    case (Cons p rest)
    have pin: "day p < length (weekDays this)" "time p < length (timeSlots this)"
      using Cons.prems Cons by (auto simp: poolInv_def)
    obtain g1 av1 k1 where loop: "placeLoop this s (slotsNeeded s) g available 0 = Inr (g1, av1, k1)"
      and inv1: "poolInv this si g1 av1"
      and mono1: "\<And>t d. g ! t ! d \<noteq> None \<Longrightarrow> g1 ! t ! d = g ! t ! d"
      and here1: "g1 ! time p ! day p = Some s"
      using placeLoop_ok[OF Cons.prems, of s "slotsNeeded s" 0] slotsNeeded_pos[of s] Cons
      by auto
    have step: "scheduleSubjects this (s # subs) g available = scheduleSubjects this subs g1 av1"
      using Cons loop by simp
    from Cons.IH[OF inv1] show ?thesis
    proof
      assume "\<exists>x \<in> set subs. scheduleSubjects this subs g1 av1 = Inl (NoSlotsForSubject (name x))"
      then show ?thesis using step by auto
    next
      assume "\<exists>g' available'. scheduleSubjects this subs g1 av1 = Inr (g', available') \<and>
            poolInv this si g' available' \<and>
            (\<forall>t d. g1 ! t ! d \<noteq> None \<longrightarrow> g' ! t ! d = g1 ! t ! d) \<and>
            (\<forall>s \<in> set subs. \<exists>t < length (timeSlots this). \<exists>d < length (weekDays this).
                g' ! t ! d = Some s)"
      then obtain g' av' where r: "scheduleSubjects this subs g1 av1 = Inr (g', av')"
        and inv': "poolInv this si g' av'"
        and mono': "\<And>t d. g1 ! t ! d \<noteq> None \<Longrightarrow> g' ! t ! d = g1 ! t ! d"
        and cov: "\<forall>s \<in> set subs. \<exists>t < length (timeSlots this). \<exists>d < length (weekDays this).
                g' ! t ! d = Some s"
        by blast
      have mono: "\<forall>t d. g ! t ! d \<noteq> None \<longrightarrow> g' ! t ! d = g ! t ! d"
        using mono1 mono' by metis
      have "g' ! time p ! day p = Some s" using here1 mono' by simp
      then have "\<exists>t < length (timeSlots this). \<exists>d < length (weekDays this). g' ! t ! d = Some s"
        using pin by blast
      then have cov': "\<forall>x \<in> set (s # subs). \<exists>t < length (timeSlots this). \<exists>d < length (weekDays this).
                g' ! t ! d = Some x" using cov by simp
      show ?thesis using step r inv' mono cov' by simp
    qed
  qed
qed

lemma scheduleSubjects_enough:
  assumes "poolInv this si g available"
    and "2 * sum_list (map slotsNeeded subs) \<le> length available"
  shows "\<exists>g' available'. scheduleSubjects this subs g available = Inr (g', available')"
  using assms
proof (induction subs arbitrary: g available)
  case Nil
  then show ?case by simp
next
  case (Cons s subs)
  have ne: "available \<noteq> []" using Cons.prems(2) slotsNeeded_pos[of s] by auto
  obtain g1 av1 k1 where loop: "placeLoop this s (slotsNeeded s) g available 0 = Inr (g1, av1, k1)"
    and inv1: "poolInv this si g1 av1"
    and len1: "length available \<le> length av1 + 2 * slotsNeeded s"
    using placeLoop_ok[OF Cons.prems(1), of s "slotsNeeded s" 0] by blast
  have "2 * sum_list (map slotsNeeded subs) \<le> length av1" using Cons.prems(2) len1 by simp
  from Cons.IH[OF inv1 this] show ?case using ne loop by simp
qed

lemma emptySchedule_nth:
  "t < length (timeSlots this) \<Longrightarrow> d < length (weekDays this) \<Longrightarrow> emptySchedule this ! t ! d = None"
  by (simp add: emptySchedule_def)

lemma emptySchedule_wellShaped: "wellShaped this (emptySchedule this)"
  by (simp add: wellShaped_def emptySchedule_def)

lemma poolInv_initial:
  "poolInv this si (emptySchedule this) (shuffleArray rnd (availableSlots this si))"
  unfolding poolInv_def
proof (intro conjI ballI allI impI)
  show "wellShaped this (emptySchedule this)" by (rule emptySchedule_wellShaped)
  show "distinct (shuffleArray rnd (availableSlots this si))"
    by (simp add: shuffleArray_distinct availableSlots_distinct)
next
  fix p assume "p \<in> set (shuffleArray rnd (availableSlots this si))"
  then have p: "day p < length (weekDays this)" "si \<le> time p" "time p < length (timeSlots this) - 1"
    by (simp_all add: shuffleArray_set availableSlots_set)
  show "day p < length (weekDays this)" "si \<le> time p" by (rule p)+
  show "time p + 1 < length (timeSlots this)" using p(3) by simp
  then show "emptySchedule this ! time p ! day p = None" using p(1) by (simp add: emptySchedule_nth)
next
  fix t d assume "t < si \<and> t < length (timeSlots this) \<and> d < length (weekDays this)"
  then show "emptySchedule this ! t ! d = None" by (simp add: emptySchedule_nth)
qed

text \<open>
  The three ways a call of \<^verbatim>\<open>createScheduleMatrix\<close> can end: the upfront error, the
  per-subject error, or a matrix that satisfies the invariant and holds every subject. In
  particular no read or write of the matrix is ever out of range.
\<close>

lemma createScheduleMatrix_cases:
  "(length (availableSlots this si) < 2 * length (subjects this) \<and>
      createScheduleMatrix rnd this si =
        (Inl (InsufficientSlots (2 * length (subjects this)) (length (availableSlots this si))), this)) \<or>
   (\<not> length (availableSlots this si) < 2 * length (subjects this) \<and>
      (\<exists>s \<in> set (subjects this).
          createScheduleMatrix rnd this si = (Inl (NoSlotsForSubject (name s)), this))) \<or>
   (\<not> length (availableSlots this si) < 2 * length (subjects this) \<and>
      (\<exists>g' available'.
          scheduleSubjects this (subjects this) (emptySchedule this)
            (shuffleArray rnd (availableSlots this si)) = Inr (g', available') \<and>
          createScheduleMatrix rnd this si = (Inr g', this\<lparr> currentScheduleData := Some g' \<rparr>) \<and>
          poolInv this si g' available' \<and>
          (\<forall>s \<in> set (subjects this). \<exists>t < length (timeSlots this). \<exists>d < length (weekDays this).
              g' ! t ! d = Some s)))"
proof (cases "length (availableSlots this si) < 2 * length (subjects this)")
  case True
  then show ?thesis by (simp add: createScheduleMatrix_def Let_def mult.commute)
next
  case False
  from scheduleSubjects_ok[OF poolInv_initial[of this si rnd], of "subjects this"]
  show ?thesis
  proof
    assume "\<exists>s \<in> set (subjects this).
       scheduleSubjects this (subjects this) (emptySchedule this)
         (shuffleArray rnd (availableSlots this si)) = Inl (NoSlotsForSubject (name s))"
    then obtain s where "s \<in> set (subjects this)"
      "scheduleSubjects this (subjects this) (emptySchedule this)
         (shuffleArray rnd (availableSlots this si)) = Inl (NoSlotsForSubject (name s))" by blast
    then have "s \<in> set (subjects this) \<and>
        createScheduleMatrix rnd this si = (Inl (NoSlotsForSubject (name s)), this)"
      using False by (simp add: createScheduleMatrix_def Let_def mult.commute)
    then show ?thesis using False by blast
  next
    assume "\<exists>g' available'.
       scheduleSubjects this (subjects this) (emptySchedule this)
         (shuffleArray rnd (availableSlots this si)) = Inr (g', available') \<and>
       poolInv this si g' available' \<and>
       (\<forall>t d. emptySchedule this ! t ! d \<noteq> None \<longrightarrow> g' ! t ! d = emptySchedule this ! t ! d) \<and>
       (\<forall>s \<in> set (subjects this). \<exists>t < length (timeSlots this). \<exists>d < length (weekDays this).
           g' ! t ! d = Some s)"
    then obtain g' available' where r: "scheduleSubjects this (subjects this) (emptySchedule this)
         (shuffleArray rnd (availableSlots this si)) = Inr (g', available')"
      and inv: "poolInv this si g' available'"
      and cov: "\<forall>s \<in> set (subjects this). \<exists>t < length (timeSlots this). \<exists>d < length (weekDays this).
           g' ! t ! d = Some s" by blast
    have "createScheduleMatrix rnd this si = (Inr g', this\<lparr> currentScheduleData := Some g' \<rparr>)"
      using False r by (simp add: createScheduleMatrix_def Let_def mult.commute)
    then show ?thesis using False r inv cov by blast
  qed
qed

lemma cellsOf_set:
  "set (cellsOf g s) = {(t, d). t < length g \<and> d < length (g ! t) \<and> g ! t ! d = Some s}"
  by (auto simp: cellsOf_def)

lemma cellsOf_distinct: "distinct (cellsOf g s)"
proof -
  have "distinct (concat (map (\<lambda>t. map (\<lambda>d. (t, d)) (f t)) [0..<n]))"
    if "\<And>t. distinct (f t)" for n and f :: "nat \<Rightarrow> nat list"
  proof (induction n)
    case 0
    show ?case by simp
  next
    case (Suc n)
    have "distinct (map (\<lambda>d. (n, d)) (f n))"
      using that by (simp add: distinct_map inj_on_def)
    with Suc show ?case by auto
  qed
  then show ?thesis unfolding cellsOf_def by simp
qed

lemma cellsOf_wellShaped:
  assumes "wellShaped this g"
  shows "set (cellsOf g s) =
           {(t, d). t < length (timeSlots this) \<and> d < length (weekDays this) \<and> g ! t ! d = Some s}"
  using assms unfolding cellsOf_set wellShaped_def by auto

lemma spec_requiredCapacity_ge: "length subs \<le> spec_requiredCapacity subs"
proof (induction subs)
  case Nil
  show ?case by (simp add: spec_requiredCapacity_def)
next
  case (Cons s subs)
  then show ?case using slotsNeeded_pos[of s] by (simp add: spec_requiredCapacity_def)
qed

lemma scheduleSubjects_NoSlots_iff:
  assumes "poolInv this si g available"
  shows "scheduleSubjects this subs g available = Inl (NoSlotsForSubject n) \<longleftrightarrow>
         (\<exists>pre s post g'. subs = pre @ s # post \<and>
             scheduleSubjects this pre g available = Inr (g', []) \<and> n = name s)"
  using assms
proof (induction subs arbitrary: g available)
  case Nil
  then show ?case by simp
next
  case (Cons s subs)
  show ?case
  proof (cases "available = []")
    case True
    have l: "scheduleSubjects this (s # subs) g available = Inl (NoSlotsForSubject (name s))"
      using True by simp
    show ?thesis
    proof
      assume "scheduleSubjects this (s # subs) g available = Inl (NoSlotsForSubject n)"
      then have "n = name s" using l by simp
      moreover have "s # subs = [] @ s # subs" by simp
      moreover have "scheduleSubjects this [] g available = Inr (g, [])" using True by simp
      ultimately show "\<exists>pre s' post g'. s # subs = pre @ s' # post \<and>
             scheduleSubjects this pre g available = Inr (g', []) \<and> n = name s'" by blast
    next
      assume "\<exists>pre s' post g'. s # subs = pre @ s' # post \<and>
             scheduleSubjects this pre g available = Inr (g', []) \<and> n = name s'"
      then obtain pre s' post g' where e: "s # subs = pre @ s' # post"
        and r: "scheduleSubjects this pre g available = Inr (g', [])" and n: "n = name s'" by blast
      have "pre = []"
      proof (cases pre)
        case Nil
        then show ?thesis .
      next
        case (Cons a pre')
        then show ?thesis using r True by simp
      qed
      then have "s' = s" using e by simp
      then show "scheduleSubjects this (s # subs) g available = Inl (NoSlotsForSubject n)"
        using l n by simp
    qed
  next
    case False
    obtain g1 av1 k1 where loop: "placeLoop this s (slotsNeeded s) g available 0 = Inr (g1, av1, k1)"
      and inv1: "poolInv this si g1 av1"
      using placeLoop_ok[OF Cons.prems, of s "slotsNeeded s" 0] by blast
    have step: "scheduleSubjects this (s # xs) g available = scheduleSubjects this xs g1 av1" for xs
      using False loop by simp
    have "(\<exists>pre s' post g'. s # subs = pre @ s' # post \<and>
             scheduleSubjects this pre g available = Inr (g', []) \<and> n = name s') \<longleftrightarrow>
          (\<exists>pre s' post g'. subs = pre @ s' # post \<and>
             scheduleSubjects this pre g1 av1 = Inr (g', []) \<and> n = name s')"
    proof
      assume "\<exists>pre s' post g'. s # subs = pre @ s' # post \<and>
             scheduleSubjects this pre g available = Inr (g', []) \<and> n = name s'"
      then obtain pre s' post g' where e: "s # subs = pre @ s' # post"
        and r: "scheduleSubjects this pre g available = Inr (g', [])" and n: "n = name s'" by blast
      show "\<exists>pre s' post g'. subs = pre @ s' # post \<and>
             scheduleSubjects this pre g1 av1 = Inr (g', []) \<and> n = name s'"
      proof (cases pre)
        case Nil
        then show ?thesis using r False by simp
      next
        case (Cons a pre')
        then have "a = s" "subs = pre' @ s' # post" using e by simp_all
        moreover have "scheduleSubjects this pre' g1 av1 = Inr (g', [])"
          using r Cons \<open>a = s\<close> step by simp
        ultimately show ?thesis using n by blast
      qed
    next
      assume "\<exists>pre s' post g'. subs = pre @ s' # post \<and>
             scheduleSubjects this pre g1 av1 = Inr (g', []) \<and> n = name s'"
      then obtain pre s' post g' where e: "subs = pre @ s' # post"
        and r: "scheduleSubjects this pre g1 av1 = Inr (g', [])" and n: "n = name s'" by blast
      have "s # subs = (s # pre) @ s' # post" using e by simp
      moreover have "scheduleSubjects this (s # pre) g available = Inr (g', [])"
        using r step by simp
      ultimately show "\<exists>pre s' post g'. s # subs = pre @ s' # post \<and>
             scheduleSubjects this pre g available = Inr (g', []) \<and> n = name s'"
        using n by blast
    qed
    then show ?thesis using step[of subs] Cons.IH[OF inv1] by simp
  qed
qed

text \<open>One iteration in full: which branch runs, the pool it leaves, and every cell of the new
  matrix.\<close>

lemma placeOne_exact:
  assumes inv: "poolInv this si g (p # available)"
  shows "(g ! (time p + 1) ! day p = None \<and>
          (\<exists>g'. placeOne this s g p available =
                  Inr (g', remove1 \<lparr> day = day p, time = time p + 1 \<rparr> available, 2) \<and>
                (\<forall>t' d'. g' ! t' ! d' =
                   (if (t' = time p \<or> t' = time p + 1) \<and> d' = day p then Some s
                    else g ! t' ! d')))) \<or>
         (g ! (time p + 1) ! day p \<noteq> None \<and>
          (\<exists>g'. placeOne this s g p available = Inr (g', available, 1) \<and>
                (\<forall>t' d'. g' ! t' ! d' =
                   (if t' = time p \<and> d' = day p then Some s else g ! t' ! d'))))"
proof -
  have ws: "wellShaped this g"
    and pd: "day p < length (weekDays this)" and pt: "time p + 1 < length (timeSlots this)"
    using inv by (auto simp: poolInv_def)
  have pt0: "time p < length (timeSlots this)" using pt by simp
  have rd: "readCell g (time p + 1) (day p) = Inr (g ! (time p + 1) ! day p)"
    using readCell_ok[OF ws pt pd] .
  show ?thesis
  proof (cases "g ! (time p + 1) ! day p")
    case None
    obtain g' where g': "placeBlock g p s = Inr g'"
      "\<forall>t' d'. g' ! t' ! d' =
              (if (t' = time p \<or> t' = time p + 1) \<and> d' = day p then Some s else g ! t' ! d')"
      using placeBlock_ok[OF ws pt pd] by blast
    have "placeOne this s g p available =
            Inr (g', remove1 \<lparr> day = day p, time = time p + 1 \<rparr> available, 2)"
      using pt rd None g'(1) by (simp add: placeOne_def removeNextSlot_remove1)
    then show ?thesis using None g'(2) by blast
  next
    case (Some other)
    obtain g' where g': "placeSingle g p s = Inr g'"
      "\<forall>t' d'. g' ! t' ! d' = (if t' = time p \<and> d' = day p then Some s else g ! t' ! d')"
      using placeSingle_ok[OF ws pt0 pd] by blast
    have "placeOne this s g p available = Inr (g', available, 1)"
      using pt rd Some g'(1) by (simp add: placeOne_def)
    then show ?thesis using Some g'(2) by auto
  qed
qed

lemma cellsOf_update:
  assumes "wellShaped this g" "wellShaped this g'"
    and "\<forall>t' d'. g' ! t' ! d' = (if (t', d') \<in> C then Some s else g ! t' ! d')"
    and "\<forall>(t, d) \<in> C. t < length (timeSlots this) \<and> d < length (weekDays this)"
  shows "set (cellsOf g' s) = C \<union> set (cellsOf g s)"
  unfolding cellsOf_wellShaped[OF assms(1)] cellsOf_wellShaped[OF assms(2)]
  using assms(3,4) by auto

lemma cellsOf_emptySchedule: "set (cellsOf (emptySchedule this) s) = {}"
  unfolding cellsOf_wellShaped[OF emptySchedule_wellShaped]
  by (auto simp: emptySchedule_nth)

lemma single_subject_loop:
  assumes inv0: "poolInv this si (emptySchedule this) pool" and len: "3 \<le> length pool"
  shows "\<exists>g' pool' k (p1::position) (p2::position). placeLoop this s 2 (emptySchedule this) pool 0 = Inr (g', pool', k) \<and>
           (set (cellsOf g' s) = {(time p1, day p1), (time p1 + 1, day p1),
                                  (time p2, day p2), (time p2 + 1, day p2)} \<and>
              length (cellsOf g' s) = 4 \<or>
            set (cellsOf g' s) = {(time p1, day p1), (time p1 + 1, day p1), (time p2, day p2)} \<and>
              length (cellsOf g' s) = 3)"
proof -
  let ?g0 = "emptySchedule this"
  obtain p1 rest where pool: "pool = p1 # rest" using len by (cases pool) auto
  have inv0': "poolInv this si ?g0 (p1 # rest)" using inv0 pool by simp
  have p1r: "day p1 < length (weekDays this)" "time p1 + 1 < length (timeSlots this)"
    using inv0' by (auto simp: poolInv_def)
  have "?g0 ! (time p1 + 1) ! day p1 = None" using p1r by (simp add: emptySchedule_nth)
  with placeOne_exact[OF inv0', of s]
  obtain g1 where one1: "placeOne this s ?g0 p1 rest =
        Inr (g1, remove1 \<lparr> day = day p1, time = time p1 + 1 \<rparr> rest, 2)"
    and g1: "\<forall>t' d'. g1 ! t' ! d' =
                   (if (t' = time p1 \<or> t' = time p1 + 1) \<and> d' = day p1 then Some s
                    else ?g0 ! t' ! d')"
    by auto
  let ?pool1 = "remove1 \<lparr> day = day p1, time = time p1 + 1 \<rparr> rest"
  have inv1: "poolInv this si g1 ?pool1"
    using placeOne_ok[OF inv0', of s] one1 by auto
  have ws1: "wellShaped this g1" using inv1 by (simp add: poolInv_def)
  have "2 \<le> length rest" using len pool by simp
  then have "1 \<le> length ?pool1" by (simp add: length_remove1) arith
  then obtain p2 rest2 where pool1: "?pool1 = p2 # rest2" by (cases ?pool1) auto
  have inv1': "poolInv this si g1 (p2 # rest2)" using inv1 pool1 by simp
  have p2r: "day p2 < length (weekDays this)" "time p2 + 1 < length (timeSlots this)"
    and p2n: "g1 ! time p2 ! day p2 = None"
    using inv1' by (auto simp: poolInv_def)
  let ?C1 = "{(time p1, day p1), (time p1 + 1, day p1)}"
  have "\<forall>t' d'. g1 ! t' ! d' = (if (t', d') \<in> ?C1 then Some s else ?g0 ! t' ! d')"
    using g1 by auto
  from cellsOf_update[OF emptySchedule_wellShaped ws1 this] p1r
  have occ1: "set (cellsOf g1 s) = ?C1" by (simp add: cellsOf_emptySchedule)
  have card1: "card (set (cellsOf g1 s)) = 2" unfolding occ1 by simp
  have out2: "(time p2, day p2) \<notin> set (cellsOf g1 s)"
    unfolding cellsOf_wellShaped[OF ws1] using p2n by simp
  from placeOne_exact[OF inv1', of s] show ?thesis
  proof
    assume blk: "g1 ! (time p2 + 1) ! day p2 = None \<and>
          (\<exists>g'. placeOne this s g1 p2 rest2 =
                  Inr (g', remove1 \<lparr> day = day p2, time = time p2 + 1 \<rparr> rest2, 2) \<and>
                (\<forall>t' d'. g' ! t' ! d' =
                   (if (t' = time p2 \<or> t' = time p2 + 1) \<and> d' = day p2 then Some s
                    else g1 ! t' ! d')))"
    then obtain g2 where one2: "placeOne this s g1 p2 rest2 =
                  Inr (g2, remove1 \<lparr> day = day p2, time = time p2 + 1 \<rparr> rest2, 2)"
      and g2: "\<forall>t' d'. g2 ! t' ! d' =
                   (if (t' = time p2 \<or> t' = time p2 + 1) \<and> d' = day p2 then Some s
                    else g1 ! t' ! d')"
      and nxt: "g1 ! (time p2 + 1) ! day p2 = None" by blast
    have ws2: "wellShaped this g2" using placeOne_ok[OF inv1', of s] one2 by (auto simp: poolInv_def)
    let ?C2 = "{(time p2, day p2), (time p2 + 1, day p2)}"
    have "\<forall>t' d'. g2 ! t' ! d' = (if (t', d') \<in> ?C2 then Some s else g1 ! t' ! d')"
      using g2 by auto
    from cellsOf_update[OF ws1 ws2 this] p2r
    have occ2: "set (cellsOf g2 s) = ?C2 \<union> set (cellsOf g1 s)" by simp
    have out3: "(time p2 + 1, day p2) \<notin> set (cellsOf g1 s)"
      unfolding cellsOf_wellShaped[OF ws1] using nxt by simp
    have "card (set (cellsOf g2 s)) = 4"
      unfolding occ2 using out2 out3 card1 by simp
    then have l: "length (cellsOf g2 s) = 4" using distinct_card[OF cellsOf_distinct] by metis
    have s2: "set (cellsOf g2 s) = {(time p1, day p1), (time p1 + 1, day p1),
                                  (time p2, day p2), (time p2 + 1, day p2)}"
      unfolding occ2 occ1 by auto
    have "placeLoop this s 2 ?g0 pool 0 =
            Inr (g2, remove1 \<lparr> day = day p2, time = time p2 + 1 \<rparr> rest2, 4)"
      using pool one1 pool1 one2 by (simp add: numeral_2_eq_2)
    then show ?thesis using s2 l by blast
  next
    assume sgl: "g1 ! (time p2 + 1) ! day p2 \<noteq> None \<and>
          (\<exists>g'. placeOne this s g1 p2 rest2 = Inr (g', rest2, 1) \<and>
                (\<forall>t' d'. g' ! t' ! d' =
                   (if t' = time p2 \<and> d' = day p2 then Some s else g1 ! t' ! d')))"
    then obtain g2 where one2: "placeOne this s g1 p2 rest2 = Inr (g2, rest2, 1)"
      and g2: "\<forall>t' d'. g2 ! t' ! d' =
                   (if t' = time p2 \<and> d' = day p2 then Some s else g1 ! t' ! d')"
      by blast
    have ws2: "wellShaped this g2" using placeOne_ok[OF inv1', of s] one2 by (auto simp: poolInv_def)
    let ?C2 = "{(time p2, day p2)}"
    have "\<forall>t' d'. g2 ! t' ! d' = (if (t', d') \<in> ?C2 then Some s else g1 ! t' ! d')"
      using g2 by auto
    from cellsOf_update[OF ws1 ws2 this] p2r
    have occ2: "set (cellsOf g2 s) = ?C2 \<union> set (cellsOf g1 s)" by simp
    have "card (set (cellsOf g2 s)) = 3"
      unfolding occ2 using out2 card1 by simp
    then have l: "length (cellsOf g2 s) = 3" using distinct_card[OF cellsOf_distinct] by metis
    have s2: "set (cellsOf g2 s) = {(time p1, day p1), (time p1 + 1, day p1), (time p2, day p2)}"
      unfolding occ2 occ1 by auto
    have "placeLoop this s 2 ?g0 pool 0 = Inr (g2, rest2, 3)"
      using pool one1 pool1 one2 by (simp add: numeral_2_eq_2)
    then show ?thesis using s2 l by blast
  qed
qed

text \<open>
  In \<^verbatim>\<open>src/schedule.js\<close> a cell that holds a subject is never written again: the popped
  position is still \<^verbatim>\<open>null\<close> by the invariant, and the cell below it is written only after
  the test \<^verbatim>\<open>=== null\<close>.
\<close>

lemma scheduleSubjects_never_overwrites:
  assumes "poolInv this si g available"
    and "scheduleSubjects this subs g available = Inr (g', available')"
    and "g ! t ! d \<noteq> None"
  shows "g' ! t ! d = g ! t ! d"
  using scheduleSubjects_ok[OF assms(1), of subs] assms(2,3) by auto

section \<open>The five-slot variant does not look at the subjects\<close>

lemma mapGrid_length: "length (mapGrid h g) = length g"
  by (simp add: mapGrid_def)

lemma writeCell_mapGrid:
  "writeCell (mapGrid h g) t d (h s) = map_sum id (mapGrid h) (writeCell g t d s)"
  by (simp add: writeCell_def mapGrid_def map_update)

lemma placeSingle_mapGrid:
  "placeSingle (mapGrid h g) p (h s) = map_sum id (mapGrid h) (placeSingle g p s)"
  by (simp add: placeSingle_def writeCell_mapGrid)

lemma placeBlock_mapGrid:
  "placeBlock (mapGrid h g) p (h s) = map_sum id (mapGrid h) (placeBlock g p s)"
  by (simp add: placeBlock_def writeCell_mapGrid split: sum.splits)

lemma mapGrid_emptySchedule:
  "weekDays this' = weekDays this \<Longrightarrow> timeSlots this' = timeSlots this \<Longrightarrow>
   mapGrid h (emptySchedule this) = emptySchedule this'"
  by (simp add: mapGrid_def emptySchedule_def)

text \<open>The loop of the five-slot variant commutes with any change made to the subjects: it
  copies each subject into cells and reads none of its fields.\<close>

lemma scheduleSubjects_js_mapGrid:
  assumes "timeSlots this' = timeSlots this"
  shows "scheduleSubjects_js this' (map h subs) (mapGrid h g) available =
           map_sum id (map_prod (mapGrid h) id) (scheduleSubjects_js this subs g available)"
proof (induction subs arbitrary: g available)
  case Nil
  show ?case by simp
next
  case (Cons s subs)
  show ?case
  proof (cases "length available < 2")
    case True
    then show ?thesis by simp
  next
    case False
    show ?thesis
    proof (cases "time (last available) + 1 < length (timeSlots this)")
      case True
      show ?thesis
      proof (cases "placeBlock g (last available) s")
        case (Inl e)
        then show ?thesis using False True assms
          by (simp add: Let_def placeBlock_mapGrid)
      next
        case (Inr g1)
        then show ?thesis using False True assms Cons.IH
          by (simp add: Let_def placeBlock_mapGrid)
      qed
    next
      case nb: False
      show ?thesis
      proof (cases "placeSingle g (last available) s")
        case (Inl e)
        then show ?thesis using False nb assms
          by (simp add: Let_def placeSingle_mapGrid)
      next
        case (Inr g1)
        then show ?thesis using False nb assms Cons.IH
          by (simp add: Let_def placeSingle_mapGrid)
      qed
    qed
  qed
qed

lemma createScheduleMatrix_js_map:
  assumes "timeSlots this' = timeSlots this" "weekDays this' = weekDays this"
    and "subjects this' = map h (subjects this)"
  shows "fst (createScheduleMatrix_js rnd this' si) =
           map_sum id (mapGrid h) (fst (createScheduleMatrix_js rnd this si)) \<and>
         map_sum id snd (scheduleSubjects_js this' (subjects this') (emptySchedule this')
            (shuffleArray rnd (availablePositions_js this' si))) =
         map_sum id snd (scheduleSubjects_js this (subjects this) (emptySchedule this)
            (shuffleArray rnd (availablePositions_js this si)))"
proof -
  have av: "availablePositions_js this' si = availablePositions_js this si"
    using assms(1,2) by (simp add: availablePositions_js_def)
  have e: "emptySchedule this' = mapGrid h (emptySchedule this)"
    using mapGrid_emptySchedule[OF assms(2) assms(1)] by simp
  let ?pool = "shuffleArray rnd (availablePositions_js this si)"
  have r: "scheduleSubjects_js this' (subjects this') (emptySchedule this') ?pool =
        map_sum id (map_prod (mapGrid h) id)
          (scheduleSubjects_js this (subjects this) (emptySchedule this) ?pool)"
    unfolding e assms(3) by (rule scheduleSubjects_js_mapGrid[OF assms(1)])
  show ?thesis
    unfolding createScheduleMatrix_js_def Let_def av r
    by (cases "scheduleSubjects_js this (subjects this) (emptySchedule this) ?pool") auto
qed

section \<open>Every turn of the five-slot variant pops one position\<close>

lemma writeCell_Inr:
  assumes "writeCell g t d s = Inr g'"
  shows "\<forall>t' d'. g' ! t' ! d' = (if t' = t \<and> d' = d then Some s else g ! t' ! d')"
proof -
  have tl: "t < length g" and dl: "d < length (g ! t)"
    and g': "g' = g[t := (g ! t)[d := Some s]]"
    using assms by (auto simp: writeCell_def split: if_splits)
  have "g' ! t' ! d' = (if t' = t \<and> d' = d then Some s else g ! t' ! d')" for t' d'
    unfolding g' using tl dl by (cases "t' = t") (simp_all add: nth_list_update)
  then show ?thesis by blast
qed

text \<open>The turn of one subject in the five-slot variant, from any state: it takes the last
  position out of the pool, and with it at most the position below; it writes the subject at
  the popped position and changes no cell but that one and the one below.\<close>

lemma scheduleSubjects_js_turn:
  assumes "scheduleSubjects_js this (s # rest) g av = Inr r"
  shows "2 \<le> length av \<and>
         (\<exists>g1 av1. scheduleSubjects_js this rest g1 av1 = Inr r \<and>
            (av1 = butlast av \<or>
             av1 = remove1 \<lparr> day = day (last av), time = time (last av) + 1 \<rparr> (butlast av)) \<and>
            g1 ! time (last av) ! day (last av) = Some s \<and>
            (\<forall>t d. g1 ! t ! d \<noteq> g ! t ! d \<longrightarrow>
               g1 ! t ! d = Some s \<and> d = day (last av) \<and>
               (t = time (last av) \<or> t = time (last av) + 1)))"
proof -
  let ?p = "last av"
  have len: "2 \<le> length av" using assms by (auto split: if_splits)
  show ?thesis
  proof (cases "time ?p + 1 < length (timeSlots this)")
    case True
    then obtain g1 where blk: "placeBlock g ?p s = Inr g1"
      and r: "scheduleSubjects_js this rest g1
                (remove1 \<lparr> day = day ?p, time = time ?p + 1 \<rparr> (butlast av)) = Inr r"
      using assms len
      by (auto simp: Let_def removeNextSlot_remove1 split: if_splits sum.splits)
    obtain g0 where w1: "writeCell g (time ?p) (day ?p) s = Inr g0"
      and w2: "writeCell g0 (time ?p + 1) (day ?p) s = Inr g1"
      using blk by (auto simp: placeBlock_def split: sum.splits)
    have cells: "g1 ! t ! d =
        (if (t = time ?p \<or> t = time ?p + 1) \<and> d = day ?p then Some s else g ! t ! d)" for t d
      using writeCell_Inr[OF w1] writeCell_Inr[OF w2] by simp
    have "g1 ! time ?p ! day ?p = Some s" using cells by simp
    moreover have "\<forall>t d. g1 ! t ! d \<noteq> g ! t ! d \<longrightarrow>
               g1 ! t ! d = Some s \<and> d = day ?p \<and> (t = time ?p \<or> t = time ?p + 1)"
      using cells by (auto split: if_splits)
    ultimately show ?thesis using len r by blast
  next
    case False
    then obtain g1 where sgl: "placeSingle g ?p s = Inr g1"
      and r: "scheduleSubjects_js this rest g1 (butlast av) = Inr r"
      using assms len by (auto simp: Let_def split: if_splits sum.splits)
    have cells: "g1 ! t ! d = (if t = time ?p \<and> d = day ?p then Some s else g ! t ! d)" for t d
      using writeCell_Inr[OF sgl[unfolded placeSingle_def]] by simp
    have "g1 ! time ?p ! day ?p = Some s" using cells by simp
    moreover have "\<forall>t d. g1 ! t ! d \<noteq> g ! t ! d \<longrightarrow>
               g1 ! t ! d = Some s \<and> d = day ?p \<and> (t = time ?p \<or> t = time ?p + 1)"
      using cells by (auto split: if_splits)
    ultimately show ?thesis using len r by blast
  qed
qed

text \<open>Hence every subject costs the pool one position or two.\<close>

lemma scheduleSubjects_js_consumes:
  assumes "scheduleSubjects_js this subs g av = Inr (g', av')"
  shows "length av' + length subs \<le> length av \<and> length av \<le> length av' + 2 * length subs"
  using assms
proof (induction subs arbitrary: g av)
  case Nil
  then show ?case by simp
next
  case (Cons s subs)
  from scheduleSubjects_js_turn[OF Cons.prems]
  obtain g1 av1 where len: "2 \<le> length av"
    and r: "scheduleSubjects_js this subs g1 av1 = Inr (g', av')"
    and av1: "av1 = butlast av \<or>
             av1 = remove1 \<lparr> day = day (last av), time = time (last av) + 1 \<rparr> (butlast av)"
    by blast
  have "length av1 + 1 \<le> length av \<and> length av \<le> length av1 + 2"
    using av1 len by (auto simp: length_remove1)
  then show ?case using Cons.IH[OF r] by simp
qed

text \<open>From a state that satisfies the invariant the turn always writes a block, and the
  invariant holds again afterwards.\<close>

lemma scheduleSubjects_js_turn_inv:
  assumes inv: "poolInv this si g av" and len: "2 \<le> length av"
  shows "\<exists>g1. scheduleSubjects_js this (s # rest) g av =
                scheduleSubjects_js this rest g1
                  (remove1 \<lparr> day = day (last av), time = time (last av) + 1 \<rparr> (butlast av)) \<and>
              poolInv this si g1
                  (remove1 \<lparr> day = day (last av), time = time (last av) + 1 \<rparr> (butlast av)) \<and>
              (\<forall>t d. g1 ! t ! d =
                 (if (t = time (last av) \<or> t = time (last av) + 1) \<and> d = day (last av)
                  then Some s else g ! t ! d)) \<and>
              day (last av) < length (weekDays this) \<and>
              time (last av) + 1 < length (timeSlots this) \<and>
              last av \<notin> set (butlast av)"
proof -
  let ?p = "last av"
  let ?av1 = "remove1 \<lparr> day = day ?p, time = time ?p + 1 \<rparr> (butlast av)"
  have ne: "av \<noteq> []" using len by auto
  have split: "av = butlast av @ [?p]" using ne by simp
  have ws: "wellShaped this g" and dist: "distinct av"
    and all: "\<And>q. q \<in> set av \<Longrightarrow> day q < length (weekDays this) \<and>
           time q + 1 < length (timeSlots this) \<and> si \<le> time q \<and> g ! time q ! day q = None"
    and before: "\<And>t d. t < si \<Longrightarrow> t < length (timeSlots this) \<Longrightarrow> d < length (weekDays this)
           \<Longrightarrow> g ! t ! d = None"
    using inv by (auto simp: poolInv_def)
  have pin: "?p \<in> set av" using ne by simp
  have pd: "day ?p < length (weekDays this)" and pt: "time ?p + 1 < length (timeSlots this)"
    and psi: "si \<le> time ?p" using all[OF pin] by simp_all
  have "distinct (butlast av @ [?p])" using dist split by metis
  then have pnot: "?p \<notin> set (butlast av)" and db: "distinct (butlast av)" by simp_all
  have sub: "set ?av1 \<subseteq> set av"
    using set_remove1_subset[of _ "butlast av"] in_set_butlastD by fastforce
  obtain g1 where g1: "placeBlock g ?p s = Inr g1" "wellShaped this g1"
      "\<And>t' d'. g1 ! t' ! d' =
              (if (t' = time ?p \<or> t' = time ?p + 1) \<and> d' = day ?p then Some s else g ! t' ! d')"
    using placeBlock_ok[OF ws pt pd] by blast
  have step: "scheduleSubjects_js this (s # rest) g av = scheduleSubjects_js this rest g1 ?av1"
    using len pt g1(1) by (simp add: Let_def removeNextSlot_remove1)
  have nin: "\<lparr> day = day ?p, time = time ?p + 1 \<rparr> \<notin> set ?av1" using db by simp
  have qcell: "g1 ! time q ! day q = None" if "q \<in> set ?av1" for q
  proof -
    have qa: "q \<in> set av" using that sub by blast
    have "q \<in> set (butlast av)" using that set_remove1_subset by fastforce
    then have "q \<noteq> ?p" using pnot by blast
    moreover have "q \<noteq> \<lparr> day = day ?p, time = time ?p + 1 \<rparr>" using that nin by blast
    ultimately have "\<not> ((time q = time ?p \<or> time q = time ?p + 1) \<and> day q = day ?p)"
      by (cases q, cases ?p) auto
    then show ?thesis using g1(3) all[OF qa] by simp
  qed
  have inv1: "poolInv this si g1 ?av1"
    unfolding poolInv_def
  proof (intro conjI ballI allI impI)
    show "wellShaped this g1" by (rule g1(2))
    show "distinct ?av1" using db by simp
  next
    fix q assume q: "q \<in> set ?av1"
    then have qa: "q \<in> set av" using sub by blast
    show "day q < length (weekDays this)" "time q + 1 < length (timeSlots this)" "si \<le> time q"
      using all[OF qa] by simp_all
    show "g1 ! time q ! day q = None" by (rule qcell[OF q])
  next
    fix t d assume "t < si \<and> t < length (timeSlots this) \<and> d < length (weekDays this)"
    then show "g1 ! t ! d = None" using before psi g1(3) by simp
  qed
  show ?thesis using step inv1 g1(3) pd pt pnot by blast
qed

text \<open>
  The whole loop of the five-slot variant from a state that satisfies the invariant, for
  subjects that are pairwise different: only cells reachable from the pool change, and a
  subject that was not in the matrix before ends with one cell or two. The cell below the
  popped position can no longer be reached from the pool, so the subject keeps it.
\<close>

lemma scheduleSubjects_js_cells:
  assumes "poolInv this si g av" and "distinct subs"
    and "scheduleSubjects_js this subs g av = Inr (g', av')"
  shows "poolInv this si g' av' \<and> set av' \<subseteq> set av \<and>
         (\<forall>t d. g' ! t ! d \<noteq> g ! t ! d \<longrightarrow>
            (\<exists>s \<in> set subs. g' ! t ! d = Some s) \<and>
            (\<lparr> day = d, time = t \<rparr> \<in> set av \<or>
             (\<exists>t0. t = t0 + 1 \<and> \<lparr> day = d, time = t0 \<rparr> \<in> set av))) \<and>
         (\<forall>s \<in> set subs.
            (\<forall>t < length (timeSlots this). \<forall>d < length (weekDays this). g ! t ! d \<noteq> Some s) \<longrightarrow>
            length (cellsOf g' s) = 1 \<or> length (cellsOf g' s) = 2)"
  using assms
proof (induction subs arbitrary: g av)
  case Nil
  then show ?case by simp
next
  case (Cons s subs)
  let ?p = "last av"
  let ?av1 = "remove1 \<lparr> day = day ?p, time = time ?p + 1 \<rparr> (butlast av)"
  have len: "2 \<le> length av" using scheduleSubjects_js_turn[OF Cons.prems(3)] by blast
  obtain g1 where step: "scheduleSubjects_js this (s # subs) g av =
                scheduleSubjects_js this subs g1 ?av1"
    and inv1: "poolInv this si g1 ?av1"
    and g1: "\<And>t d. g1 ! t ! d =
                 (if (t = time ?p \<or> t = time ?p + 1) \<and> d = day ?p then Some s else g ! t ! d)"
    and pd: "day ?p < length (weekDays this)" and pt: "time ?p + 1 < length (timeSlots this)"
    and pnot: "?p \<notin> set (butlast av)"
    using scheduleSubjects_js_turn_inv[OF Cons.prems(1) len, of s subs] by blast
  have r: "scheduleSubjects_js this subs g1 ?av1 = Inr (g', av')"
    using Cons.prems(3) step by simp
  have ds: "distinct subs" and snot: "s \<notin> set subs" using Cons.prems(2) by simp_all
  from Cons.IH[OF inv1 ds r]
  have inv': "poolInv this si g' av'" and sub': "set av' \<subseteq> set ?av1"
    and chg: "\<And>t d. g' ! t ! d \<noteq> g1 ! t ! d \<Longrightarrow>
            (\<exists>x \<in> set subs. g' ! t ! d = Some x) \<and>
            (\<lparr> day = d, time = t \<rparr> \<in> set ?av1 \<or>
             (\<exists>t0. t = t0 + 1 \<and> \<lparr> day = d, time = t0 \<rparr> \<in> set ?av1))"
    and cnt: "\<And>x. x \<in> set subs \<Longrightarrow>
            (\<forall>t < length (timeSlots this). \<forall>d < length (weekDays this). g1 ! t ! d \<noteq> Some x) \<Longrightarrow>
            length (cellsOf g' x) = 1 \<or> length (cellsOf g' x) = 2"
    by blast+
  have ne: "av \<noteq> []" using len by auto
  have pin: "?p \<in> set av" using ne by simp
  have sub1: "set ?av1 \<subseteq> set av"
    using set_remove1_subset[of _ "butlast av"] in_set_butlastD by fastforce
  have sub1b: "set ?av1 \<subseteq> set (butlast av)" by (rule set_remove1_subset)
  have dav: "distinct av" using Cons.prems(1) by (simp add: poolInv_def)
  have db: "distinct (butlast av)" using dav by (rule distinct_butlast)
  have nin: "\<lparr> day = day ?p, time = time ?p + 1 \<rparr> \<notin> set ?av1" using db by simp
  have pnot1: "?p \<notin> set ?av1" using pnot sub1b by blast
  have ws: "wellShaped this g" using Cons.prems(1) by (simp add: poolInv_def)
  have ws1: "wellShaped this g1" using inv1 by (simp add: poolInv_def)
  have ws': "wellShaped this g'" using inv' by (simp add: poolInv_def)
  have A: "set av' \<subseteq> set av" using sub' sub1 by blast
  have B: "(\<exists>x \<in> set (s # subs). g' ! t ! d = Some x) \<and>
            (\<lparr> day = d, time = t \<rparr> \<in> set av \<or>
             (\<exists>t0. t = t0 + 1 \<and> \<lparr> day = d, time = t0 \<rparr> \<in> set av))"
    if diff: "g' ! t ! d \<noteq> g ! t ! d" for t d
  proof (cases "g' ! t ! d = g1 ! t ! d")
    case False
    from chg[OF False] show ?thesis using sub1 by auto
  next
    case True
    then have "g1 ! t ! d \<noteq> g ! t ! d" using diff by simp
    then have td: "(t = time ?p \<or> t = time ?p + 1) \<and> d = day ?p" and v: "g1 ! t ! d = Some s"
      using g1[of t d] by (auto split: if_splits)
    have "\<lparr> day = d, time = t \<rparr> \<in> set av \<or>
             (\<exists>t0. t = t0 + 1 \<and> \<lparr> day = d, time = t0 \<rparr> \<in> set av)"
    proof (cases "t = time ?p")
      case True
      then have e: "\<lparr> day = d, time = t \<rparr> = ?p" using td by simp
      have "\<lparr> day = d, time = t \<rparr> \<in> set av" unfolding e by (rule pin)
      then show ?thesis by blast
    next
      case False
      then have t1: "t = time ?p + 1" using td by simp
      have e: "\<lparr> day = d, time = time ?p \<rparr> = ?p" using td by simp
      have "\<lparr> day = d, time = time ?p \<rparr> \<in> set av" unfolding e by (rule pin)
      then show ?thesis using t1 by blast
    qed
    then show ?thesis using True v by simp
  qed
  have C: "length (cellsOf g' x) = 1 \<or> length (cellsOf g' x) = 2"
    if xin: "x \<in> set (s # subs)"
      and absent: "\<forall>t < length (timeSlots this). \<forall>d < length (weekDays this). g ! t ! d \<noteq> Some x"
    for x
  proof (cases "x = s")
    case False
    then have xs: "x \<in> set subs" using xin by simp
    have "\<forall>t < length (timeSlots this). \<forall>d < length (weekDays this). g1 ! t ! d \<noteq> Some x"
      using absent False g1 by auto
    from cnt[OF xs this] show ?thesis .
  next
    case True
    let ?C = "{(time ?p, day ?p), (time ?p + 1, day ?p)}"
    have "\<forall>t' d'. g1 ! t' ! d' = (if (t', d') \<in> ?C then Some s else g ! t' ! d')"
      using g1 by auto
    from cellsOf_update[OF ws ws1 this] pd pt
    have "set (cellsOf g1 s) = ?C \<union> set (cellsOf g s)" by simp
    moreover have "set (cellsOf g s) = {}"
      unfolding cellsOf_wellShaped[OF ws] using absent True by auto
    ultimately have occ1: "set (cellsOf g1 s) = ?C" by simp
    have subC: "set (cellsOf g' s) \<subseteq> ?C"
    proof
      fix c assume c: "c \<in> set (cellsOf g' s)"
      obtain t d where cd: "c = (t, d)" by (cases c)
      have rng: "t < length (timeSlots this)" "d < length (weekDays this)"
        and v: "g' ! t ! d = Some s"
        using c cd unfolding cellsOf_wellShaped[OF ws'] by simp_all
      have "g' ! t ! d = g1 ! t ! d"
      proof (rule ccontr)
        assume "g' ! t ! d \<noteq> g1 ! t ! d"
        from chg[OF this] v snot show False by auto
      qed
      then have "(t, d) \<in> set (cellsOf g1 s)"
        unfolding cellsOf_wellShaped[OF ws1] using rng v by simp
      then show "c \<in> ?C" using occ1 cd by simp
    qed
    have keep: "g' ! (time ?p + 1) ! day ?p = g1 ! (time ?p + 1) ! day ?p"
    proof (rule ccontr)
      assume "g' ! (time ?p + 1) ! day ?p \<noteq> g1 ! (time ?p + 1) ! day ?p"
      from chg[OF this]
      have "\<lparr> day = day ?p, time = time ?p + 1 \<rparr> \<in> set ?av1 \<or>
            (\<exists>t0. time ?p + 1 = t0 + 1 \<and> \<lparr> day = day ?p, time = t0 \<rparr> \<in> set ?av1)" by blast
      then show False
      proof
        assume "\<lparr> day = day ?p, time = time ?p + 1 \<rparr> \<in> set ?av1"
        then show False using nin by blast
      next
        assume "\<exists>t0. time ?p + 1 = t0 + 1 \<and> \<lparr> day = day ?p, time = t0 \<rparr> \<in> set ?av1"
        then have x: "\<lparr> day = day ?p, time = time ?p \<rparr> \<in> set ?av1" by auto
        have e: "\<lparr> day = day ?p, time = time ?p \<rparr> = ?p" by simp
        from e x have "?p \<in> set ?av1" by (rule subst[where P = "\<lambda>q. q \<in> set ?av1"])
        then show False using pnot1 by blast
      qed
    qed
    have "g1 ! (time ?p + 1) ! day ?p = Some s" using g1 by simp
    then have "(time ?p + 1, day ?p) \<in> set (cellsOf g' s)"
      unfolding cellsOf_wellShaped[OF ws'] using keep pd pt by simp
    then have "set (cellsOf g' s) \<noteq> {}" by auto
    then have pos: "0 < card (set (cellsOf g' s))" by (simp add: card_gt_0_iff)
    have "card (set (cellsOf g' s)) \<le> card ?C" by (rule card_mono[OF _ subC]) simp
    also have "card ?C = 2" by simp
    finally have "card (set (cellsOf g' s)) \<le> 2" .
    then have "card (set (cellsOf g' s)) = 1 \<or> card (set (cellsOf g' s)) = 2"
      using pos by linarith
    then show ?thesis using distinct_card[OF cellsOf_distinct, of g' s] True by simp
  qed
  show ?case using inv' A B C by blast
qed

section \<open>The claims\<close>

text \<open>
  Claim C6 (candidate position set). For every start index below the number of time slots, the
  candidates that \<^verbatim>\<open>createScheduleMatrix\<close> builds, in \<^verbatim>\<open>src/schedule.js\<close> and in
  \<^verbatim>\<open>src/js/schedule.js\<close> alike, are exactly the pairs of a day index below the number of
  week days and a time index from the start index up to, but excluding, the last time-slot
  index. No pair is listed twice, the shuffle keeps the set, and the last time-slot index is
  never a candidate.
\<close>

theorem candidate_positions_exact:
  assumes "startIndex < length (timeSlots this)"
  shows "set (availableSlots this startIndex) =
           {p. day p < length (weekDays this) \<and> startIndex \<le> time p \<and>
               time p < length (timeSlots this) - 1} \<and>
         set (availablePositions_js this startIndex) =
           {p. day p < length (weekDays this) \<and> startIndex \<le> time p \<and>
               time p < length (timeSlots this) - 1} \<and>
         distinct (availableSlots this startIndex) \<and>
         set (shuffleArray rnd (availableSlots this startIndex)) = set (availableSlots this startIndex) \<and>
         (\<forall>p \<in> set (availableSlots this startIndex). time p \<noteq> length (timeSlots this) - 1)"
proof -
  have same: "availablePositions_js this startIndex = availableSlots this startIndex"
    by (simp add: availablePositions_js_def availableSlots_def)
  show ?thesis
    unfolding same using availableSlots_set[of this startIndex]
    by (simp add: availableSlots_distinct shuffleArray_set)
qed

theorem candidate_positions_exact_witness:
  "(6::nat) < length (timeSlots new_ScheduleManager) \<and>
   \<lparr> day = 4, time = 7 \<rparr> \<in> set (availableSlots new_ScheduleManager 6) \<and>
   \<lparr> day = 0, time = 8 \<rparr> \<notin> set (availableSlots new_ScheduleManager 6) \<and>
   \<lparr> day = 0, time = 5 \<rparr> \<notin> set (availablePositions_js new_ScheduleManager 6)"
proof -
  have h: "(6::nat) < length (timeSlots new_ScheduleManager)"
    by (simp add: new_ScheduleManager_def)
  show ?thesis
    using h candidate_positions_exact[OF h, of id]
    by (simp add: new_ScheduleManager_def)
qed

text \<open>
  Claim C8 (input non-mutation). Whether the call returns or throws, the manager it leaves
  behind has the same \<^verbatim>\<open>subjects\<close> (same length, order and field values), the same
  \<^verbatim>\<open>timeSlots\<close> and the same \<^verbatim>\<open>weekDays\<close> as before the call.
\<close>

theorem createScheduleMatrix_inputs_unchanged:
  "subjects (snd (createScheduleMatrix rnd this startIndex)) = subjects this \<and>
   timeSlots (snd (createScheduleMatrix rnd this startIndex)) = timeSlots this \<and>
   weekDays (snd (createScheduleMatrix rnd this startIndex)) = weekDays this"
  by (simp add: createScheduleMatrix_def Let_def split: sum.splits prod.splits)

text \<open>
  Claim C9 (index safety). For every start index below the number of time slots, no read or
  write of \<^verbatim>\<open>schedule[t][d]\<close> made by \<^verbatim>\<open>createScheduleMatrix\<close> of \<^verbatim>\<open>src/schedule.js\<close> is out of
  range: the call never ends in \<open>IndexOutOfRange\<close>, which is what any such access would produce.
\<close>

theorem createScheduleMatrix_index_safe:
  assumes "startIndex < length (timeSlots this)"
  shows "fst (createScheduleMatrix rnd this startIndex) \<noteq> Inl IndexOutOfRange"
  using createScheduleMatrix_cases[of this startIndex rnd] by auto

theorem createScheduleMatrix_index_safe_witness:
  "(0::nat) < length (timeSlots new_ScheduleManager) \<and>
   fst (createScheduleMatrix id (withSubjects new_ScheduleManager
          [mkSubject ''A'' 5 1, mkSubject ''B'' 3 2]) 0) \<noteq> Inl IndexOutOfRange"
proof -
  have h: "(0::nat) < length (timeSlots (withSubjects new_ScheduleManager
          [mkSubject ''A'' 5 1, mkSubject ''B'' 3 2]))"
    by (simp add: new_ScheduleManager_def withSubjects_def)
  show ?thesis
    using createScheduleMatrix_index_safe[OF h, of id]
    by (simp add: new_ScheduleManager_def)
qed

text \<open>
  Claim C7 (slots before the start index are never used). In every matrix that
  \<^verbatim>\<open>createScheduleMatrix\<close> of \<^verbatim>\<open>src/schedule.js\<close> returns, every cell whose time index is below
  the start index is \<^verbatim>\<open>null\<close>.
\<close>

theorem slots_before_start_unused:
  assumes "fst (createScheduleMatrix rnd this startIndex) = Inr schedule"
    and "t < startIndex" and "t < length (timeSlots this)" and "d < length (weekDays this)"
  shows "schedule ! t ! d = None"
proof -
  have "poolInv this startIndex schedule available'" if
    "createScheduleMatrix rnd this startIndex = (Inr g', m)" "poolInv this startIndex g' available'"
    for g' m available'
    using that assms(1) by simp
  then obtain available' where "poolInv this startIndex schedule available'"
    using createScheduleMatrix_cases[of this startIndex rnd] assms(1) by auto
  then show ?thesis using assms(2-4) by (simp add: poolInv_def)
qed

theorem slots_before_start_unused_witness:
  "\<not> isl (fst (createScheduleMatrix id (withSubjects new_ScheduleManager
            [mkSubject ''A'' 4 1, mkSubject ''B'' 4 2, mkSubject ''C'' 4 3]) 6)) \<and>
   (5::nat) < 6 \<and> 
   projr (fst (createScheduleMatrix id (withSubjects new_ScheduleManager
            [mkSubject ''A'' 4 1, mkSubject ''B'' 4 2, mkSubject ''C'' 4 3]) 6)) ! 5 ! 0 = None"
proof -
  let ?m = "withSubjects new_ScheduleManager
            [mkSubject ''A'' 4 1, mkSubject ''B'' 4 2, mkSubject ''C'' 4 3]"
  have r: "\<not> isl (fst (createScheduleMatrix id ?m 6))" by code_simp
  then have e: "fst (createScheduleMatrix id ?m 6) = Inr (projr (fst (createScheduleMatrix id ?m 6)))"
    by simp
  have t: "(5::nat) < length (timeSlots ?m)" and d: "(0::nat) < length (weekDays ?m)"
    by (simp_all add: new_ScheduleManager_def withSubjects_def)
  have "(5::nat) < 6" by simp
  from slots_before_start_unused[OF e this t d] r show ?thesis by simp
qed

text \<open>
  Claim C2 (capacity precondition), as stated: the upfront check fails exactly when the number
  of candidates is below the sum over the subjects of \<open>max(1, floor(credits / 2))\<close>. It is
  false: with start index 7 there are five candidates, three subjects of one credit each
  require three, and the call still throws the upfront error, which asks for six.
\<close>

theorem capacity_check_counterexample:
  "spec_requiredCapacity (subjects (withSubjects new_ScheduleManager
       [mkSubject ''A'' 1 1, mkSubject ''B'' 1 2, mkSubject ''C'' 1 3])) = 3 \<and>
   length (availableSlots (withSubjects new_ScheduleManager
       [mkSubject ''A'' 1 1, mkSubject ''B'' 1 2, mkSubject ''C'' 1 3]) 7) = 5 \<and>
   fst (createScheduleMatrix id (withSubjects new_ScheduleManager
       [mkSubject ''A'' 1 1, mkSubject ''B'' 1 2, mkSubject ''C'' 1 3]) 7) =
     Inl (InsufficientSlots 6 5)"
  by code_simp

text \<open>
  Claim C2 as amended. \<^verbatim>\<open>createScheduleMatrix\<close> of \<^verbatim>\<open>src/schedule.js\<close> throws the upfront capacity
  error exactly when the number of candidate positions is below twice the number of subjects;
  the error carries that bound and the number of candidates, and the manager is left as it
  was, no matrix having been stored.
\<close>

theorem upfront_capacity_check:
  "((\<exists>required available.
        fst (createScheduleMatrix rnd this startIndex) = Inl (InsufficientSlots required available))
      \<longleftrightarrow> length (availableSlots this startIndex) < 2 * length (subjects this)) \<and>
   (length (availableSlots this startIndex) < 2 * length (subjects this) \<longrightarrow>
      createScheduleMatrix rnd this startIndex =
        (Inl (InsufficientSlots (2 * length (subjects this))
                (length (availableSlots this startIndex))), this))"
  using createScheduleMatrix_cases[of this startIndex rnd] by auto

theorem upfront_capacity_check_witness:
  "length (availableSlots (withSubjects new_ScheduleManager
       [mkSubject ''A'' 1 1, mkSubject ''B'' 1 2, mkSubject ''C'' 1 3]) 7)
     < 2 * length (subjects (withSubjects new_ScheduleManager
       [mkSubject ''A'' 1 1, mkSubject ''B'' 1 2, mkSubject ''C'' 1 3])) \<and>
   createScheduleMatrix id (withSubjects new_ScheduleManager
       [mkSubject ''A'' 1 1, mkSubject ''B'' 1 2, mkSubject ''C'' 1 3]) 7 =
     (Inl (InsufficientSlots 6 5), withSubjects new_ScheduleManager
       [mkSubject ''A'' 1 1, mkSubject ''B'' 1 2, mkSubject ''C'' 1 3])"
proof -
  let ?m = "withSubjects new_ScheduleManager
       [mkSubject ''A'' 1 1, mkSubject ''B'' 1 2, mkSubject ''C'' 1 3]"
  have n: "length (subjects ?m) = 3" by (simp add: withSubjects_def)
  have a: "length (availableSlots ?m 7) = 5"
    by (simp add: availableSlots_length withSubjects_def new_ScheduleManager_def)
  have h: "length (availableSlots ?m 7) < 2 * length (subjects ?m)" using n a by simp
  from upfront_capacity_check[of id ?m 7] h
  have "createScheduleMatrix id ?m 7 =
        (Inl (InsufficientSlots (2 * length (subjects ?m)) (length (availableSlots ?m 7))), ?m)"
    by blast
  then show ?thesis using h n a by simp
qed

text \<open>
  Claim C3 (full coverage), as stated: on a valid input whose candidates are at least the
  required capacity the call returns a matrix. It is false: five subjects of four credits and
  start index 6 give ten candidates for a required capacity of ten, and with the pool in the
  order it was built the call throws the per-subject error for the fourth subject.
\<close>

theorem full_coverage_counterexample:
  "subjects (withSubjects new_ScheduleManager
       [mkSubject ''A'' 4 1, mkSubject ''B'' 4 2, mkSubject ''C'' 4 3, mkSubject ''D'' 4 4,
        mkSubject ''E'' 4 5]) \<noteq> [] \<and>
   set (map credits (subjects (withSubjects new_ScheduleManager
       [mkSubject ''A'' 4 1, mkSubject ''B'' 4 2, mkSubject ''C'' 4 3, mkSubject ''D'' 4 4,
        mkSubject ''E'' 4 5]))) \<subseteq> {1..5} \<and>
   (6::nat) < length (timeSlots new_ScheduleManager) \<and>
   spec_requiredCapacity (subjects (withSubjects new_ScheduleManager
       [mkSubject ''A'' 4 1, mkSubject ''B'' 4 2, mkSubject ''C'' 4 3, mkSubject ''D'' 4 4,
        mkSubject ''E'' 4 5])) = 10 \<and>
   length (availableSlots (withSubjects new_ScheduleManager
       [mkSubject ''A'' 4 1, mkSubject ''B'' 4 2, mkSubject ''C'' 4 3, mkSubject ''D'' 4 4,
        mkSubject ''E'' 4 5]) 6) = 10 \<and>
   fst (createScheduleMatrix id (withSubjects new_ScheduleManager
       [mkSubject ''A'' 4 1, mkSubject ''B'' 4 2, mkSubject ''C'' 4 3, mkSubject ''D'' 4 4,
        mkSubject ''E'' 4 5]) 6) = Inl (NoSlotsForSubject ''D'')"
  by code_simp

text \<open>
  Claim C3 as amended. When the candidates are at least twice the required capacity, the call
  returns a matrix; and every matrix the call returns, on any input, holds every subject of
  the input in at least one cell. With fewer candidates the call may end in a capacity error.
\<close>

theorem full_coverage_or_failure:
  "(2 * spec_requiredCapacity (subjects this) \<le> length (availableSlots this startIndex) \<longrightarrow>
      (\<exists>schedule. fst (createScheduleMatrix rnd this startIndex) = Inr schedule)) \<and>
   (\<forall>schedule. fst (createScheduleMatrix rnd this startIndex) = Inr schedule \<longrightarrow>
      (\<forall>s \<in> set (subjects this). cellsOf schedule s \<noteq> []))"
proof (intro conjI impI allI)
  assume enough: "2 * spec_requiredCapacity (subjects this) \<le> length (availableSlots this startIndex)"
  let ?pool = "shuffleArray rnd (availableSlots this startIndex)"
  have "2 * sum_list (map slotsNeeded (subjects this)) \<le> length ?pool"
    using enough by (simp add: shuffleArray_length spec_requiredCapacity_def)
  from scheduleSubjects_enough[OF poolInv_initial this]
  obtain g' available' where
    r: "scheduleSubjects this (subjects this) (emptySchedule this) ?pool = Inr (g', available')"
    by blast
  have "\<not> length (availableSlots this startIndex) < length (subjects this) * 2"
    using enough spec_requiredCapacity_ge[of "subjects this"] by simp
  then have "fst (createScheduleMatrix rnd this startIndex) = Inr g'"
    using r by (simp add: createScheduleMatrix_def Let_def)
  then show "\<exists>schedule. fst (createScheduleMatrix rnd this startIndex) = Inr schedule" by blast
next
  fix schedule
  assume ret: "fst (createScheduleMatrix rnd this startIndex) = Inr schedule"
  from createScheduleMatrix_cases[of this startIndex rnd] ret
  obtain available' where inv: "poolInv this startIndex schedule available'"
    and cov: "\<forall>s \<in> set (subjects this). \<exists>t < length (timeSlots this). \<exists>d < length (weekDays this).
              schedule ! t ! d = Some s"
    by auto
  have ws: "wellShaped this schedule" using inv by (simp add: poolInv_def)
  show "\<forall>s \<in> set (subjects this). cellsOf schedule s \<noteq> []"
  proof
    fix s assume "s \<in> set (subjects this)"
    then obtain t d where "t < length (timeSlots this)" "d < length (weekDays this)"
      "schedule ! t ! d = Some s" using cov by blast
    then have "(t, d) \<in> set (cellsOf schedule s)" unfolding cellsOf_wellShaped[OF ws] by simp
    then show "cellsOf schedule s \<noteq> []" by auto
  qed
qed

theorem full_coverage_or_failure_witness:
  "2 * spec_requiredCapacity (subjects (withSubjects new_ScheduleManager
       [mkSubject ''A'' 4 1, mkSubject ''B'' 2 2, mkSubject ''C'' 5 3]))
     \<le> length (availableSlots (withSubjects new_ScheduleManager
       [mkSubject ''A'' 4 1, mkSubject ''B'' 2 2, mkSubject ''C'' 5 3]) 5) \<and>
   \<not> isl (fst (createScheduleMatrix id (withSubjects new_ScheduleManager
       [mkSubject ''A'' 4 1, mkSubject ''B'' 2 2, mkSubject ''C'' 5 3]) 5)) \<and>
   cellsOf (projr (fst (createScheduleMatrix id (withSubjects new_ScheduleManager
       [mkSubject ''A'' 4 1, mkSubject ''B'' 2 2, mkSubject ''C'' 5 3]) 5)))
     (mkSubject ''B'' 2 2) \<noteq> []"
proof -
  let ?m = "withSubjects new_ScheduleManager
       [mkSubject ''A'' 4 1, mkSubject ''B'' 2 2, mkSubject ''C'' 5 3]"
  have h: "2 * spec_requiredCapacity (subjects ?m) \<le> length (availableSlots ?m 5)"
    by code_simp
  from full_coverage_or_failure[of ?m 5 id] h
  obtain schedule where r: "fst (createScheduleMatrix id ?m 5) = Inr schedule" by blast
  have "mkSubject ''B'' 2 2 \<in> set (subjects ?m)" by (simp add: withSubjects_def)
  with full_coverage_or_failure[of ?m 5 id] r
  have "cellsOf schedule (mkSubject ''B'' 2 2) \<noteq> []" by blast
  then show ?thesis using h r by simp
qed

text \<open>
  Claim C4 (per-subject capacity error), as stated: the error is raised exactly when the pool
  runs out before the subject has had its \<open>slotsNeeded\<close> placements. It is false: with three
  subjects of four credits, start index 6 and the pool in the order it was built, the third
  subject needs two placements, its first placement empties the pool, and the call returns a
  matrix all the same, the subject holding the two cells of that single placement.
\<close>

theorem per_subject_error_counterexample:
  "map_sum id snd (scheduleSubjects
       (withSubjects new_ScheduleManager
          [mkSubject ''A'' 4 1, mkSubject ''B'' 4 2, mkSubject ''C'' 4 3])
       [mkSubject ''A'' 4 1, mkSubject ''B'' 4 2]
       (emptySchedule new_ScheduleManager)
       (shuffleArray id (availableSlots new_ScheduleManager 6)))
     = Inr [\<lparr> day = 4, time = 6 \<rparr>, \<lparr> day = 4, time = 7 \<rparr>] \<and>
   slotsNeeded (mkSubject ''C'' 4 3) = 2 \<and>
   map_sum id (fst \<circ> snd) (placeOne
       (withSubjects new_ScheduleManager
          [mkSubject ''A'' 4 1, mkSubject ''B'' 4 2, mkSubject ''C'' 4 3])
       (mkSubject ''C'' 4 3)
       (fst (projr (scheduleSubjects
          (withSubjects new_ScheduleManager
             [mkSubject ''A'' 4 1, mkSubject ''B'' 4 2, mkSubject ''C'' 4 3])
          [mkSubject ''A'' 4 1, mkSubject ''B'' 4 2]
          (emptySchedule new_ScheduleManager)
          (shuffleArray id (availableSlots new_ScheduleManager 6)))))
       \<lparr> day = 4, time = 6 \<rparr> [\<lparr> day = 4, time = 7 \<rparr>])
     = Inr [] \<and>
   \<not> isl (fst (createScheduleMatrix id (withSubjects new_ScheduleManager
          [mkSubject ''A'' 4 1, mkSubject ''B'' 4 2, mkSubject ''C'' 4 3]) 6)) \<and>
   cellsOf (projr (fst (createScheduleMatrix id (withSubjects new_ScheduleManager
          [mkSubject ''A'' 4 1, mkSubject ''B'' 4 2, mkSubject ''C'' 4 3]) 6)))
     (mkSubject ''C'' 4 3) = [(6, 4), (7, 4)]"
  by code_simp

text \<open>
  Claim C4 as amended. The call throws the per-subject capacity error carrying the name \<open>n\<close>
  exactly when the upfront check has passed and the pool is empty at the moment the turn of a
  subject named \<open>n\<close> begins, the subjects before it having been placed. A subject whose turn
  begins with a non-empty pool raises no error, whether or not the pool lasts for all of its
  \<open>slotsNeeded\<close> placements.
\<close>

theorem per_subject_error_iff:
  "fst (createScheduleMatrix rnd this startIndex) = Inl (NoSlotsForSubject n) \<longleftrightarrow>
   \<not> length (availableSlots this startIndex) < 2 * length (subjects this) \<and>
   (\<exists>pre s post schedule.
       subjects this = pre @ s # post \<and>
       scheduleSubjects this pre (emptySchedule this)
         (shuffleArray rnd (availableSlots this startIndex)) = Inr (schedule, []) \<and>
       n = name s)"
proof (cases "length (availableSlots this startIndex) < 2 * length (subjects this)")
  case True
  then have "fst (createScheduleMatrix rnd this startIndex) =
      Inl (InsufficientSlots (2 * length (subjects this)) (length (availableSlots this startIndex)))"
    using createScheduleMatrix_cases[of this startIndex rnd] by auto
  then show ?thesis using True by simp
next
  case False
  then have c: "\<not> length (availableSlots this startIndex) < length (subjects this) * 2"
    by (simp add: mult.commute)
  have "fst (createScheduleMatrix rnd this startIndex) = Inl (NoSlotsForSubject n) \<longleftrightarrow>
        scheduleSubjects this (subjects this) (emptySchedule this)
         (shuffleArray rnd (availableSlots this startIndex)) = Inl (NoSlotsForSubject n)"
    using c by (simp add: createScheduleMatrix_def Let_def split: sum.splits prod.splits)
  then show ?thesis
    using False scheduleSubjects_NoSlots_iff[OF poolInv_initial[of this startIndex rnd], of "subjects this" n]
    by simp
qed

theorem per_subject_error_iff_witness:
  "fst (createScheduleMatrix id (withSubjects new_ScheduleManager
       [mkSubject ''A'' 4 1, mkSubject ''B'' 4 2, mkSubject ''C'' 4 3, mkSubject ''D'' 4 4,
        mkSubject ''E'' 4 5]) 6) = Inl (NoSlotsForSubject ''D'') \<and>
   (\<exists>pre s post schedule.
       subjects (withSubjects new_ScheduleManager
         [mkSubject ''A'' 4 1, mkSubject ''B'' 4 2, mkSubject ''C'' 4 3, mkSubject ''D'' 4 4,
          mkSubject ''E'' 4 5]) = pre @ s # post \<and>
       scheduleSubjects (withSubjects new_ScheduleManager
           [mkSubject ''A'' 4 1, mkSubject ''B'' 4 2, mkSubject ''C'' 4 3, mkSubject ''D'' 4 4,
            mkSubject ''E'' 4 5]) pre
         (emptySchedule (withSubjects new_ScheduleManager
           [mkSubject ''A'' 4 1, mkSubject ''B'' 4 2, mkSubject ''C'' 4 3, mkSubject ''D'' 4 4,
            mkSubject ''E'' 4 5]))
         (shuffleArray id (availableSlots (withSubjects new_ScheduleManager
           [mkSubject ''A'' 4 1, mkSubject ''B'' 4 2, mkSubject ''C'' 4 3, mkSubject ''D'' 4 4,
            mkSubject ''E'' 4 5]) 6)) = Inr (schedule, []) \<and>
       ''D'' = name s)"
proof -
  let ?m = "withSubjects new_ScheduleManager
       [mkSubject ''A'' 4 1, mkSubject ''B'' 4 2, mkSubject ''C'' 4 3, mkSubject ''D'' 4 4,
        mkSubject ''E'' 4 5]"
  have r: "fst (createScheduleMatrix id ?m 6) = Inl (NoSlotsForSubject ''D'')" by code_simp
  from iffD1[OF per_subject_error_iff r] show ?thesis using r by blast
qed

text \<open>
  Claim C5 (single subject of five credits), as stated: the subject is given exactly two cells.
  It is false: with start index 0 and the pool in the order it was built, the subject is
  placed twice and holds the four cells of two blocks.
\<close>

theorem single_subject_counterexample:
  "\<not> isl (fst (createScheduleMatrix id (withSubjects new_ScheduleManager [mkSubject ''A'' 5 1]) 0)) \<and>
   cellsOf (projr (fst (createScheduleMatrix id
       (withSubjects new_ScheduleManager [mkSubject ''A'' 5 1]) 0))) (mkSubject ''A'' 5 1)
     = [(0, 0), (1, 0), (2, 0), (3, 0)]"
  by code_simp

text \<open>
  Claim C5 as amended. For a single subject of five credits and at least three candidate
  positions, the call returns a matrix in which the subject holds three or four cells: those
  of two placements, the first always a block of two cells on the same day at adjacent time
  indices, the second either such a block or a single cell.
\<close>

theorem single_subject_cells:
  assumes "subjects this = [s]" and "credits s = 5"
    and "3 \<le> length (availableSlots this startIndex)"
  shows "\<exists>schedule (p1::position) (p2::position). fst (createScheduleMatrix rnd this startIndex) = Inr schedule \<and>
           (set (cellsOf schedule s) = {(time p1, day p1), (time p1 + 1, day p1),
                                        (time p2, day p2), (time p2 + 1, day p2)} \<and>
              length (cellsOf schedule s) = 4 \<or>
            set (cellsOf schedule s) = {(time p1, day p1), (time p1 + 1, day p1),
                                        (time p2, day p2)} \<and>
              length (cellsOf schedule s) = 3)"
proof -
  let ?pool = "shuffleArray rnd (availableSlots this startIndex)"
  have len: "3 \<le> length ?pool" using assms(3) by (simp add: shuffleArray_length)
  have n: "slotsNeeded s = 2" using assms(2) by (simp add: slotsNeeded_def)
  obtain g' pool' k and p1 p2 :: position where
    loop: "placeLoop this s 2 (emptySchedule this) ?pool 0 = Inr (g', pool', k)"
    and cells: "set (cellsOf g' s) = {(time p1, day p1), (time p1 + 1, day p1),
                                  (time p2, day p2), (time p2 + 1, day p2)} \<and>
              length (cellsOf g' s) = 4 \<or>
            set (cellsOf g' s) = {(time p1, day p1), (time p1 + 1, day p1), (time p2, day p2)} \<and>
              length (cellsOf g' s) = 3"
    using single_subject_loop[OF poolInv_initial len, of s] by blast
  have ne: "?pool \<noteq> []" using len by auto
  have "scheduleSubjects this [s] (emptySchedule this) ?pool = Inr (g', pool')"
    using ne n loop by simp
  moreover have "\<not> length (availableSlots this startIndex) < length (subjects this) * 2"
    using assms(1,3) by simp
  ultimately have "fst (createScheduleMatrix rnd this startIndex) = Inr g'"
    using assms(1) by (simp add: createScheduleMatrix_def Let_def)
  then show ?thesis using cells by blast
qed

theorem single_subject_cells_witness:
  "subjects (withSubjects new_ScheduleManager [mkSubject ''A'' 5 1]) = [mkSubject ''A'' 5 1] \<and>
   credits (mkSubject ''A'' 5 1) = 5 \<and>
   3 \<le> length (availableSlots (withSubjects new_ScheduleManager [mkSubject ''A'' 5 1]) 7) \<and>
   (length (cellsOf (projr (fst (createScheduleMatrix id
       (withSubjects new_ScheduleManager [mkSubject ''A'' 5 1]) 7))) (mkSubject ''A'' 5 1)) = 4 \<or>
    length (cellsOf (projr (fst (createScheduleMatrix id
       (withSubjects new_ScheduleManager [mkSubject ''A'' 5 1]) 7))) (mkSubject ''A'' 5 1)) = 3)"
proof -
  let ?m = "withSubjects new_ScheduleManager [mkSubject ''A'' 5 1]"
  let ?s = "mkSubject ''A'' 5 1"
  have h1: "subjects ?m = [?s]" by (simp add: withSubjects_def)
  have h2: "credits ?s = 5" by (simp add: mkSubject_def)
  have h3: "3 \<le> length (availableSlots ?m 7)"
    by (simp add: availableSlots_length withSubjects_def new_ScheduleManager_def)
  from single_subject_cells[OF h1 h2 h3, of id]
  obtain schedule where "fst (createScheduleMatrix id ?m 7) = Inr schedule"
    "length (cellsOf schedule ?s) = 4 \<or> length (cellsOf schedule ?s) = 3" by auto
  then show ?thesis using h1 h2 h3 by simp
qed

text \<open>
  Claim C10 (credits ignored in the five-slot variant). In \<^verbatim>\<open>src/js/schedule.js\<close> two
  managers whose subject lists differ only in the credits behave alike for every start index
  and every shuffle: the same error or, credits apart, the same matrix, and the same pool left
  over, hence the same positions taken and the same cells written. The turn of a subject,
  whatever its credits, pops exactly one position, the last of the pool, removes with it at
  most the position below, writes the subject at the popped position and changes no cell but
  that one and the one below. So a matrix is returned only after each subject has cost the
  pool one position or two, and when the subjects are pairwise different each of them holds
  one cell or two of the returned matrix.
\<close>

theorem credits_ignored_js:
  assumes "timeSlots this' = timeSlots this" and "weekDays this' = weekDays this"
    and "map eraseCredits (subjects this') = map eraseCredits (subjects this)"
  shows "map_sum id (mapGrid eraseCredits) (fst (createScheduleMatrix_js rnd this' startIndex)) =
         map_sum id (mapGrid eraseCredits) (fst (createScheduleMatrix_js rnd this startIndex)) \<and>
         map_sum id snd (scheduleSubjects_js this' (subjects this') (emptySchedule this')
            (shuffleArray rnd (availablePositions_js this' startIndex))) =
         map_sum id snd (scheduleSubjects_js this (subjects this) (emptySchedule this)
            (shuffleArray rnd (availablePositions_js this startIndex))) \<and>
         (\<forall>s rest g av r. scheduleSubjects_js this (s # rest) g av = Inr r \<longrightarrow>
            2 \<le> length av \<and>
            (\<exists>g1 av1. scheduleSubjects_js this rest g1 av1 = Inr r \<and>
               (av1 = butlast av \<or>
                av1 = remove1 \<lparr> day = day (last av), time = time (last av) + 1 \<rparr> (butlast av)) \<and>
               g1 ! time (last av) ! day (last av) = Some s \<and>
               (\<forall>t d. g1 ! t ! d \<noteq> g ! t ! d \<longrightarrow>
                  g1 ! t ! d = Some s \<and> d = day (last av) \<and>
                  (t = time (last av) \<or> t = time (last av) + 1)))) \<and>
         (\<forall>schedule. fst (createScheduleMatrix_js rnd this startIndex) = Inr schedule \<longrightarrow>
            (\<exists>pool'. scheduleSubjects_js this (subjects this) (emptySchedule this)
                        (shuffleArray rnd (availablePositions_js this startIndex)) =
                      Inr (schedule, pool') \<and>
                    length pool' + length (subjects this)
                      \<le> length (availablePositions_js this startIndex) \<and>
                    length (availablePositions_js this startIndex)
                      \<le> length pool' + 2 * length (subjects this)) \<and>
            (distinct (subjects this) \<longrightarrow>
               (\<forall>s \<in> set (subjects this).
                   length (cellsOf schedule s) = 1 \<or> length (cellsOf schedule s) = 2)))"
proof -
  let ?m = "this\<lparr> subjects := map eraseCredits (subjects this) \<rparr>"
  let ?pool = "shuffleArray rnd (availablePositions_js this startIndex)"
  have a: "timeSlots ?m = timeSlots this" "weekDays ?m = weekDays this"
    "subjects ?m = map eraseCredits (subjects this)" by simp_all
  have b: "timeSlots ?m = timeSlots this'" "weekDays ?m = weekDays this'"
    "subjects ?m = map eraseCredits (subjects this')" using assms by simp_all
  from createScheduleMatrix_js_map[OF a, of rnd startIndex]
       createScheduleMatrix_js_map[OF b, of rnd startIndex]
  have agree: "map_sum id (mapGrid eraseCredits) (fst (createScheduleMatrix_js rnd this' startIndex)) =
         map_sum id (mapGrid eraseCredits) (fst (createScheduleMatrix_js rnd this startIndex)) \<and>
         map_sum id snd (scheduleSubjects_js this' (subjects this') (emptySchedule this')
            (shuffleArray rnd (availablePositions_js this' startIndex))) =
         map_sum id snd (scheduleSubjects_js this (subjects this) (emptySchedule this)
            (shuffleArray rnd (availablePositions_js this startIndex)))"
    by simp
  have turn: "\<forall>s rest g av r. scheduleSubjects_js this (s # rest) g av = Inr r \<longrightarrow>
            2 \<le> length av \<and>
            (\<exists>g1 av1. scheduleSubjects_js this rest g1 av1 = Inr r \<and>
               (av1 = butlast av \<or>
                av1 = remove1 \<lparr> day = day (last av), time = time (last av) + 1 \<rparr> (butlast av)) \<and>
               g1 ! time (last av) ! day (last av) = Some s \<and>
               (\<forall>t d. g1 ! t ! d \<noteq> g ! t ! d \<longrightarrow>
                  g1 ! t ! d = Some s \<and> d = day (last av) \<and>
                  (t = time (last av) \<or> t = time (last av) + 1)))"
    using scheduleSubjects_js_turn[of this] by blast
  have same: "availablePositions_js this startIndex = availableSlots this startIndex"
    by (simp add: availablePositions_js_def availableSlots_def)
  have inv0: "poolInv this startIndex (emptySchedule this) ?pool"
    unfolding same by (rule poolInv_initial)
  have ret: "(\<exists>pool'. scheduleSubjects_js this (subjects this) (emptySchedule this) ?pool =
                      Inr (schedule, pool') \<and>
                    length pool' + length (subjects this)
                      \<le> length (availablePositions_js this startIndex) \<and>
                    length (availablePositions_js this startIndex)
                      \<le> length pool' + 2 * length (subjects this)) \<and>
            (distinct (subjects this) \<longrightarrow>
               (\<forall>s \<in> set (subjects this).
                   length (cellsOf schedule s) = 1 \<or> length (cellsOf schedule s) = 2))"
    if r: "fst (createScheduleMatrix_js rnd this startIndex) = Inr schedule" for schedule
  proof -
    obtain pool' where run: "scheduleSubjects_js this (subjects this) (emptySchedule this) ?pool =
                      Inr (schedule, pool')"
      using r by (auto simp: createScheduleMatrix_js_def Let_def split: sum.splits prod.splits)
    from scheduleSubjects_js_consumes[OF run]
    have bounds: "length pool' + length (subjects this)
                      \<le> length (availablePositions_js this startIndex) \<and>
                    length (availablePositions_js this startIndex)
                      \<le> length pool' + 2 * length (subjects this)"
      by (simp add: shuffleArray_length)
    have cells: "\<forall>s \<in> set (subjects this).
                   length (cellsOf schedule s) = 1 \<or> length (cellsOf schedule s) = 2"
      if d: "distinct (subjects this)"
    proof
      fix s assume s: "s \<in> set (subjects this)"
      have "\<forall>t < length (timeSlots this). \<forall>d < length (weekDays this).
              emptySchedule this ! t ! d \<noteq> Some s"
        by (simp add: emptySchedule_nth)
      with scheduleSubjects_js_cells[OF inv0 d run] s
      show "length (cellsOf schedule s) = 1 \<or> length (cellsOf schedule s) = 2" by blast
    qed
    show ?thesis using run bounds cells by blast
  qed
  show ?thesis using agree turn ret by blast
qed

theorem credits_ignored_js_witness:
  "timeSlots (withSubjects new_ScheduleManager_js [mkSubject ''A'' 5 1, mkSubject ''B'' 3 2]) =
     timeSlots (withSubjects new_ScheduleManager_js [mkSubject ''A'' 1 1, mkSubject ''B'' 2 2]) \<and>
   weekDays (withSubjects new_ScheduleManager_js [mkSubject ''A'' 5 1, mkSubject ''B'' 3 2]) =
     weekDays (withSubjects new_ScheduleManager_js [mkSubject ''A'' 1 1, mkSubject ''B'' 2 2]) \<and>
   map eraseCredits (subjects (withSubjects new_ScheduleManager_js
       [mkSubject ''A'' 5 1, mkSubject ''B'' 3 2])) =
     map eraseCredits (subjects (withSubjects new_ScheduleManager_js
       [mkSubject ''A'' 1 1, mkSubject ''B'' 2 2])) \<and>
   map_sum id (mapGrid eraseCredits) (fst (createScheduleMatrix_js drawsLate
       (withSubjects new_ScheduleManager_js [mkSubject ''A'' 5 1, mkSubject ''B'' 3 2]) 1)) =
     map_sum id (mapGrid eraseCredits) (fst (createScheduleMatrix_js drawsLate
       (withSubjects new_ScheduleManager_js [mkSubject ''A'' 1 1, mkSubject ''B'' 2 2]) 1)) \<and>
   \<not> isl (fst (createScheduleMatrix_js drawsLate
       (withSubjects new_ScheduleManager_js [mkSubject ''A'' 1 1, mkSubject ''B'' 2 2]) 1)) \<and>
   distinct (subjects (withSubjects new_ScheduleManager_js
       [mkSubject ''A'' 1 1, mkSubject ''B'' 2 2])) \<and>
   (length (cellsOf (projr (fst (createScheduleMatrix_js drawsLate
       (withSubjects new_ScheduleManager_js [mkSubject ''A'' 1 1, mkSubject ''B'' 2 2]) 1)))
       (mkSubject ''A'' 1 1)) = 1 \<or>
    length (cellsOf (projr (fst (createScheduleMatrix_js drawsLate
       (withSubjects new_ScheduleManager_js [mkSubject ''A'' 1 1, mkSubject ''B'' 2 2]) 1)))
       (mkSubject ''A'' 1 1)) = 2) \<and>
   (\<exists>pool' :: position list. length pool' + 2 \<le> length (availablePositions_js (withSubjects
          new_ScheduleManager_js [mkSubject ''A'' 1 1, mkSubject ''B'' 2 2]) 1) \<and>
        length (availablePositions_js (withSubjects
          new_ScheduleManager_js [mkSubject ''A'' 1 1, mkSubject ''B'' 2 2]) 1) \<le> length pool' + 4)"
proof -
  let ?m' = "withSubjects new_ScheduleManager_js [mkSubject ''A'' 5 1, mkSubject ''B'' 3 2]"
  let ?m = "withSubjects new_ScheduleManager_js [mkSubject ''A'' 1 1, mkSubject ''B'' 2 2]"
  have h1: "timeSlots ?m' = timeSlots ?m" and h2: "weekDays ?m' = weekDays ?m"
    by (simp_all add: withSubjects_def)
  have h3: "map eraseCredits (subjects ?m') = map eraseCredits (subjects ?m)"
    by (simp add: withSubjects_def mkSubject_def eraseCredits_def)
  have r: "\<not> isl (fst (createScheduleMatrix_js drawsLate ?m 1))" by code_simp
  then have e: "fst (createScheduleMatrix_js drawsLate ?m 1) =
      Inr (projr (fst (createScheduleMatrix_js drawsLate ?m 1)))" by simp
  have d: "distinct (subjects ?m)" by (simp add: withSubjects_def mkSubject_def)
  have a: "mkSubject ''A'' 1 1 \<in> set (subjects ?m)" by (simp add: withSubjects_def)
  have n: "length (subjects ?m) = 2" by (simp add: withSubjects_def)
  note inst = credits_ignored_js[OF h1 h2 h3, of drawsLate 1]
  have agree: "map_sum id (mapGrid eraseCredits) (fst (createScheduleMatrix_js drawsLate ?m' 1)) =
     map_sum id (mapGrid eraseCredits) (fst (createScheduleMatrix_js drawsLate ?m 1))"
    by (rule inst[THEN conjunct1])
  note ret = inst[THEN conjunct2, THEN conjunct2, THEN conjunct2, rule_format, OF e]
  have cells:
    "length (cellsOf (projr (fst (createScheduleMatrix_js drawsLate ?m 1))) (mkSubject ''A'' 1 1)) = 1 \<or>
     length (cellsOf (projr (fst (createScheduleMatrix_js drawsLate ?m 1))) (mkSubject ''A'' 1 1)) = 2"
    using ret[THEN conjunct2] d a by blast
  obtain pool' :: "position list" where
    "length pool' + length (subjects ?m) \<le> length (availablePositions_js ?m 1)"
    "length (availablePositions_js ?m 1) \<le> length pool' + 2 * length (subjects ?m)"
    using ret[THEN conjunct1] by blast
  then have "\<exists>pool' :: position list. length pool' + 2 \<le> length (availablePositions_js ?m 1) \<and>
        length (availablePositions_js ?m 1) \<le> length pool' + 4"
    unfolding n by auto
  then show ?thesis using h1 h2 h3 agree r d cells by blast
qed

text \<open>
  Claim C1 (no double-booking): no placement step overwrites a cell already assigned to a
  different subject, in both variants. The nine-slot variant satisfies it (lemma
  \<open>scheduleSubjects_never_overwrites\<close>). The five-slot variant does not: it writes the cell
  below the popped position without reading it. With subjects A and B, start index 0 and a
  shuffle that pops \<open>(day 0, time 1)\<close> first and \<open>(day 0, time 0)\<close> next, the cell
  \<open>schedule[1][0]\<close> holds A after the first step and B at the end; A is left with one cell.
\<close>

theorem double_booking_js:
  "fst (projr (scheduleSubjects_js
       (withSubjects new_ScheduleManager_js [mkSubject ''A'' 3 1, mkSubject ''B'' 3 2])
       [mkSubject ''A'' 3 1]
       (emptySchedule new_ScheduleManager_js)
       (shuffleArray drawsLate (availablePositions_js new_ScheduleManager_js 0)))) ! 1 ! 0
     = Some (mkSubject ''A'' 3 1) \<and>
   projr (fst (createScheduleMatrix_js drawsLate
       (withSubjects new_ScheduleManager_js [mkSubject ''A'' 3 1, mkSubject ''B'' 3 2]) 0)) ! 1 ! 0
     = Some (mkSubject ''B'' 3 2) \<and>
   \<not> isl (fst (createScheduleMatrix_js drawsLate
       (withSubjects new_ScheduleManager_js [mkSubject ''A'' 3 1, mkSubject ''B'' 3 2]) 0)) \<and>
   cellsOf (projr (fst (createScheduleMatrix_js drawsLate
       (withSubjects new_ScheduleManager_js [mkSubject ''A'' 3 1, mkSubject ''B'' 3 2]) 0)))
     (mkSubject ''A'' 3 1) = [(2, 0)] \<and>
   cellsOf (projr (fst (createScheduleMatrix_js drawsLate
       (withSubjects new_ScheduleManager_js [mkSubject ''A'' 3 1, mkSubject ''B'' 3 2]) 0)))
     (mkSubject ''B'' 3 2) = [(0, 0), (1, 0)]"
  by code_simp

end
